theory Spec2Isabelle
  imports Main "HOL-Library.Char_ord" "HOL-Library.List_Lexorder" "HOL-Library.Sublist"
begin

section \<open>Scanner image updater: a model of update-scanner-images.py\<close>

text \<open>
  The script reads a Go source file of image constants, asks the registry for the tags of
  each tracked repository, selects the latest stable semantic version and rewrites the
  stale constants. This theory embeds its functions in HOL and proves the properties
  stated for them.

  Conventions of the model.
  \<^item> A Python \<open>str\<close> is a \<open>string\<close>; a character of the model is a code point below
    256. On these, the pattern class \<open>\d\<close> is \<open>0\<close> to \<open>9\<close> and the class \<open>\s\<close> is the
    twelve characters of \<open>is_space\<close>.
  \<^item> An exception is a value of type \<open>exn\<close>; a function that can raise returns
    \<open>exn + 'a\<close>, with \<open>Inl\<close> the exception.
  \<^item> The numbers written in a tag are natural numbers: \<open>int\<close> applied to a string of
    digits is never negative. The interpreter's limit on the number of digits that
    \<open>int\<close> and \<open>str\<close> convert is not modelled.
  \<^item> A page walk that never ends is the value \<open>None\<close>.
\<close>

subsection \<open>Characters\<close>

definition is_digit :: "char \<Rightarrow> bool" where
  "is_digit c = (c \<in> set ''0123456789'')"

text \<open>The class \<open>\s\<close> of a \<open>str\<close> pattern, below code point 256.\<close>

definition is_space :: "char \<Rightarrow> bool" where
  "is_space c = (c \<in> {CHR 0x09, CHR 0x0A, CHR 0x0B, CHR 0x0C, CHR 0x0D,
                       CHR 0x1C, CHR 0x1D, CHR 0x1E, CHR 0x1F, CHR 0x20,
                       CHR 0x85, CHR 0xA0})"

text \<open>The class \<open>[A-Za-z_]\<close>.\<close>

definition is_ident_start :: "char \<Rightarrow> bool" where
  "is_ident_start c =
     (c \<in> set ''ABCDEFGHIJKLMNOPQRSTUVWXYZabcdefghijklmnopqrstuvwxyz_'')"

text \<open>The class \<open>[A-Za-z0-9_]\<close>.\<close>

definition is_ident_char :: "char \<Rightarrow> bool" where
  "is_ident_char c = (is_ident_start c \<or> is_digit c)"

subsection \<open>Numbers and their decimal text\<close>

definition digit_val :: "char \<Rightarrow> nat" where
  "digit_val c = of_char c - 48"

definition digit_char :: "nat \<Rightarrow> char" where
  "digit_char d = char_of (48 + d)"

text \<open>\<open>int(s)\<close> for a non-empty string of digits \<open>s\<close>.\<close>

definition int_of_digits :: "string \<Rightarrow> nat" where
  "int_of_digits s = foldl (\<lambda>n c. 10 * n + digit_val c) 0 s"

text \<open>\<open>str(n)\<close> for a non-negative integer \<open>n\<close>.\<close>

fun str_of_nat :: "nat \<Rightarrow> string" where
  "str_of_nat n =
     (if n < 10 then [digit_char n] else str_of_nat (n div 10) @ [digit_char (n mod 10)])"

declare str_of_nat.simps [simp del]

subsection \<open>Semantic versions\<close>

type_synonym version = "nat \<times> nat \<times> nat"

text \<open>
  \<open>SEMVER_RE = ^v(\d+)\.(\d+)\.(\d+)$\<close>, applied with \<open>match\<close>. Each \<open>\d+\<close> is
  followed by a character that is no digit, so the greedy run of digits is the only
  one that can lead to a match. Without the \<open>MULTILINE\<close> flag, \<open>$\<close> holds at the end of
  the string and also just before a newline that ends the string. The result is the three
  groups.
\<close>

definition SEMVER_RE_match :: "string \<Rightarrow> (string \<times> string \<times> string) option" where
  "SEMVER_RE_match tag =
     (case tag of
        [] \<Rightarrow> None
      | c # r0 \<Rightarrow>
          if c \<noteq> CHR ''v'' then None
          else let g1 = takeWhile is_digit r0; r1 = dropWhile is_digit r0 in
          if g1 = [] then None
          else (case r1 of
            [] \<Rightarrow> None
          | d1 # r2 \<Rightarrow>
              if d1 \<noteq> CHR ''.'' then None
              else let g2 = takeWhile is_digit r2; r3 = dropWhile is_digit r2 in
              if g2 = [] then None
              else (case r3 of
                [] \<Rightarrow> None
              | d2 # r4 \<Rightarrow>
                  if d2 \<noteq> CHR ''.'' then None
                  else let g3 = takeWhile is_digit r4; r5 = dropWhile is_digit r4 in
                  if g3 = [] then None
                  else if r5 = [] \<or> r5 = [CHR 0x0A] then Some (g1, g2, g3)
                  else None)))"

definition parse_semver :: "string \<Rightarrow> version option" where
  "parse_semver tag =
     (case SEMVER_RE_match tag of
        None \<Rightarrow> None
      | Some (g1, g2, g3) \<Rightarrow> Some (int_of_digits g1, int_of_digits g2, int_of_digits g3))"

text \<open>The order of Python tuples of integers: lexicographic.\<close>

fun version_less :: "version \<Rightarrow> version \<Rightarrow> bool" where
  "version_less (a, b, c) (a', b', c') =
     (a < a' \<or> (a = a' \<and> (b < b' \<or> (b = b' \<and> c < c'))))"

definition version_le :: "version \<Rightarrow> version \<Rightarrow> bool" where
  "version_le v w = (version_less v w \<or> v = w)"

text \<open>
  \<open>max\<close> over a non-empty list: the running maximum is replaced by an item only when the
  item is greater.
\<close>

fun max_from :: "version \<Rightarrow> version list \<Rightarrow> version" where
  "max_from m [] = m"
| "max_from m (x # xs) = max_from (if version_less m x then x else m) xs"

text \<open>The text \<open>f"v{latest[0]}.{latest[1]}.{latest[2]}"\<close>.\<close>

fun format_version :: "version \<Rightarrow> string" where
  "format_version (a, b, c) =
     ''v'' @ str_of_nat a @ ''.'' @ str_of_nat b @ ''.'' @ str_of_nat c"

subsection \<open>Exceptions\<close>

text \<open>
  The exceptions the script raises itself (\<open>KeyError\<close> and \<open>ValueError\<close>, with their
  messages), those of the library calls it makes, and the four classes that \<open>main\<close>
  catches. A body that is not JSON raises \<open>JSONDecodeError\<close>, a \<open>ValueError\<close>.
\<close>

datatype exn =
    KeyError string
  | ValueError string
  | HTTPError
  | URLError
  | TimeoutError
  | AttributeError
  | TypeError
  | IndexError

fun caught_by_main :: "exn \<Rightarrow> bool" where
  "caught_by_main (KeyError _) = True"
| "caught_by_main (ValueError _) = True"
| "caught_by_main HTTPError = True"
| "caught_by_main URLError = True"
| "caught_by_main _ = False"

subsection \<open>The registry\<close>

text \<open>
  A decoded JSON value. An object is an association list read with \<open>map_of\<close>. A number
  is kept as an integer: the script only tests a number for being zero.
\<close>

datatype json =
    JNull
  | JBool bool
  | JNum int
  | JStr string
  | JArr "json list"
  | JObj "(string \<times> json) list"

text \<open>
  What one request yields: an exception of \<open>Request\<close>, \<open>urlopen\<close> or \<open>json.load\<close>,
  or the decoded body. The network is a function from the value requested and the
  timeout to this outcome. The value requested is the first page's address or the
  \<open>next\<close> field of the page before, whatever JSON value that field holds.
\<close>

datatype response = Raises exn | Payload json

type_synonym network = "json \<Rightarrow> int \<Rightarrow> response"

text \<open>The truth value of a decoded JSON value, as \<open>while next_url:\<close> tests it.\<close>

fun truthy :: "json \<Rightarrow> bool" where
  "truthy JNull = False"
| "truthy (JBool b) = b"
| "truthy (JNum n) = (n \<noteq> 0)"
| "truthy (JStr s) = (s \<noteq> [])"
| "truthy (JArr xs) = (xs \<noteq> [])"
| "truthy (JObj kvs) = (kvs \<noteq> [])"

text \<open>
  \<open>payload.get(key, default)\<close>: only a dictionary has the method; the result is the
  default when the key is absent.
\<close>

fun dict_get :: "json \<Rightarrow> string \<Rightarrow> json \<Rightarrow> exn + json" where
  "dict_get (JObj kvs) key dflt = Inr (case map_of kvs key of None \<Rightarrow> dflt | Some v \<Rightarrow> v)"
| "dict_get _ key dflt = Inl AttributeError"

text \<open>
  The items a \<open>for\<close> loop draws from a value: the elements of a list, the characters
  of a string, the keys of a dictionary; the other values are not iterable.
\<close>

fun py_iter :: "json \<Rightarrow> exn + json list" where
  "py_iter (JArr xs) = Inr xs"
| "py_iter (JStr s) = Inr (map (\<lambda>c. JStr [c]) s)"
| "py_iter (JObj kvs) = Inr (map (\<lambda>kv. JStr (fst kv)) kvs)"
| "py_iter _ = Inl TypeError"

text \<open>The body of the loop over the results of one page.\<close>

fun collect_names :: "json list \<Rightarrow> string list \<Rightarrow> exn + string list" where
  "collect_names [] tags = Inr tags"
| "collect_names (result # results) tags =
     (case dict_get result ''name'' JNull of
        Inl e \<Rightarrow> Inl e
      | Inr (JStr name) \<Rightarrow> collect_names results (tags @ [name])
      | Inr _ \<Rightarrow> collect_names results tags)"

definition DOCKER_HUB_NAMESPACE :: string where
  "DOCKER_HUB_NAMESPACE = ''horuszup''"

definition first_page_url :: "string \<Rightarrow> string" where
  "first_page_url repository =
     ''https://hub.docker.com/v2/namespaces/'' @ DOCKER_HUB_NAMESPACE @
     ''/repositories/'' @ repository @ ''/tags?page_size=100''"

text \<open>
  The \<open>for\<close> loop over one page: the results of the payload, an empty list when it
  has none, each give their name if it is a string.
\<close>

definition extend_tags :: "json \<Rightarrow> string list \<Rightarrow> exn + string list" where
  "extend_tags payload tags =
     (case dict_get payload ''results'' (JArr []) of
        Inl e \<Rightarrow> Inl e
      | Inr results \<Rightarrow>
          (case py_iter results of
             Inl e \<Rightarrow> Inl e
           | Inr items \<Rightarrow> collect_names items tags))"

text \<open>The \<open>while\<close> loop of \<open>fetch_tags\<close>, from the test of \<open>next_url\<close> on.\<close>

partial_function (option) fetch_loop ::
  "network \<Rightarrow> int \<Rightarrow> json \<Rightarrow> string list \<Rightarrow> (exn + string list) option" where
  "fetch_loop net timeout next_url tags =
     (if \<not> truthy next_url then Some (Inr tags)
      else (case net next_url timeout of
        Raises e \<Rightarrow> Some (Inl e)
      | Payload payload \<Rightarrow>
          (case extend_tags payload tags of
             Inl e \<Rightarrow> Some (Inl e)
           | Inr tags' \<Rightarrow>
               (case dict_get payload ''next'' JNull of
                  Inl e \<Rightarrow> Some (Inl e)
                | Inr next_url' \<Rightarrow> fetch_loop net timeout next_url' tags'))))"

definition fetch_tags :: "network \<Rightarrow> string \<Rightarrow> int \<Rightarrow> (exn + string list) option" where
  "fetch_tags net repository timeout =
     fetch_loop net timeout (JStr (first_page_url repository)) []"

text \<open>
  The part of \<open>fetch_latest_semver_tag\<close> after the tags are fetched: the versions of
  the tags that parse, the error when there is none, the text of the greatest.
\<close>

definition select_latest :: "string \<Rightarrow> string list \<Rightarrow> exn + string" where
  "select_latest repository tags =
     (case List.map_filter parse_semver tags of
        [] \<Rightarrow> Inl (ValueError (''No stable semantic tag found for '' @ repository))
      | v # vs \<Rightarrow> Inr (format_version (max_from v vs)))"

definition fetch_latest_semver_tag ::
  "network \<Rightarrow> string \<Rightarrow> int \<Rightarrow> (exn + string) option" where
  "fetch_latest_semver_tag net repository timeout =
     (case fetch_tags net repository timeout of
        None \<Rightarrow> None
      | Some (Inl e) \<Rightarrow> Some (Inl e)
      | Some (Inr tags) \<Rightarrow> Some (select_latest repository tags))"

subsection \<open>The constants file\<close>

text \<open>
  \<open>CONST_LINE_RE = ^(?P<indent>\s*)(?P<const>[A-Za-z_][A-Za-z0-9_]*)\s*=\s*"(?P<value>[^"]+)"\<close>,
  applied with \<open>match\<close>. Every starred or plussed class is followed by a character
  outside the class (spaces by an identifier character, by \<open>=\<close> or by a quote; identifier
  characters by a space or by \<open>=\<close>; the value by a quote), so giving back a character
  never helps and the greedy runs are the only match. The result is the three groups.
  \<open>CHR 0x22\<close> is the double quote.
\<close>

definition CONST_LINE_RE_match :: "string \<Rightarrow> (string \<times> string \<times> string) option" where
  "CONST_LINE_RE_match line =
     (let indent = takeWhile is_space line; r0 = dropWhile is_space line in
      case r0 of
        [] \<Rightarrow> None
      | c # r1 \<Rightarrow>
          if \<not> is_ident_start c then None
          else let const = c # takeWhile is_ident_char r1;
                   r2 = dropWhile is_space (dropWhile is_ident_char r1) in
          (case r2 of
             [] \<Rightarrow> None
           | e # r3 \<Rightarrow>
               if e \<noteq> CHR ''='' then None
               else (case dropWhile is_space r3 of
                  [] \<Rightarrow> None
                | q # r4 \<Rightarrow>
                    if q \<noteq> CHR 0x22 then None
                    else let val = takeWhile (\<lambda>x. x \<noteq> CHR 0x22) r4;
                             r5 = dropWhile (\<lambda>x. x \<noteq> CHR 0x22) r4 in
                    if val = [] \<or> r5 = [] then None
                    else Some (indent, const, val))))"

text \<open>
  The dictionary of constants: a map from the name to the line position and the value.
  Only look-ups are made in it, so its insertion order is not kept. A position is an
  \<open>int\<close>, as in the source, where a negative index into a list counts from its end.
\<close>

type_synonym constants = "string \<rightharpoonup> int \<times> string"

fun parse_loop :: "nat \<Rightarrow> string list \<Rightarrow> constants \<Rightarrow> constants" where
  "parse_loop index [] constants = constants"
| "parse_loop index (line # lines) constants =
     (case CONST_LINE_RE_match line of
        None \<Rightarrow> parse_loop (Suc index) lines constants
      | Some (indent, cname, val) \<Rightarrow>
          parse_loop (Suc index) lines (constants(cname \<mapsto> (int index, val))))"

definition parse_image_constants :: "string list \<Rightarrow> constants" where
  "parse_image_constants lines = parse_loop 0 lines Map.empty"

text \<open>
  \<open>value.rsplit(":", 1)\<close> of a value with a colon: the text before the last colon and
  the text after it.
\<close>

definition before_last_colon :: "string \<Rightarrow> string" where
  "before_last_colon s = rev (tl (dropWhile (\<lambda>c. c \<noteq> CHR '':'') (rev s)))"

definition after_last_colon :: "string \<Rightarrow> string" where
  "after_last_colon s = rev (takeWhile (\<lambda>c. c \<noteq> CHR '':'') (rev s))"

definition extract_image_tag :: "string \<Rightarrow> exn + string" where
  "extract_image_tag val =
     (if CHR '':'' \<notin> set val
      then Inl (ValueError (''Invalid image reference format: '' @ val))
      else Inr (after_last_colon val))"

definition replace_image_tag :: "string \<Rightarrow> string \<Rightarrow> exn + string" where
  "replace_image_tag val new_tag =
     (if CHR '':'' \<notin> set val
      then Inl (ValueError (''Invalid image reference format: '' @ val))
      else Inr (before_last_colon val @ '':'' @ new_tag))"

subsection \<open>Planning the updates\<close>

record ImageUpdate =
  const_name :: string
  repository :: string
  from_tag :: string
  to_tag :: string

text \<open>The dictionary of tracked constants, in its order of definition.\<close>

definition TARGET_CONST_TO_REPOSITORY :: "(string \<times> string) list" where
  "TARGET_CONST_TO_REPOSITORY =
     [(''C'', ''horusec-c''),
      (''Csharp'', ''horusec-csharp''),
      (''Elixir'', ''horusec-elixir''),
      (''Generic'', ''horusec-generic''),
      (''Go'', ''horusec-go''),
      (''HCL'', ''horusec-hcl''),
      (''Javascript'', ''horusec-js''),
      (''Leaks'', ''horusec-leaks''),
      (''PHP'', ''horusec-php''),
      (''Python'', ''horusec-python''),
      (''Ruby'', ''horusec-ruby''),
      (''Shell'', ''horusec-shell'')]"

text \<open>
  The loop of \<open>compute_updates\<close> over the items of the table. The table is a parameter
  here, so that properties can be stated for any order of its items; \<open>main\<close> passes
  \<open>TARGET_CONST_TO_REPOSITORY\<close>.
\<close>

fun compute_loop ::
  "network \<Rightarrow> (string \<times> string) list \<Rightarrow> constants \<Rightarrow> int \<Rightarrow> ImageUpdate list
     \<Rightarrow> (exn + ImageUpdate list) option" where
  "compute_loop net [] constants timeout updates = Some (Inr updates)"
| "compute_loop net ((cname, repo) # targets) constants timeout updates =
     (case constants cname of
        None \<Rightarrow> Some (Inl (KeyError (''Constant '' @ cname @ '' not found in images.go'')))
      | Some (index, val) \<Rightarrow>
          (case extract_image_tag val of
             Inl e \<Rightarrow> Some (Inl e)
           | Inr current_tag \<Rightarrow>
               (case fetch_latest_semver_tag net repo timeout of
                  None \<Rightarrow> None
                | Some (Inl e) \<Rightarrow> Some (Inl e)
                | Some (Inr latest_tag) \<Rightarrow>
                    if parse_semver latest_tag = None
                    then Some (Inl (ValueError
                      (''Latest tag is not stable semver: '' @ repo @ '':'' @ latest_tag)))
                    else compute_loop net targets constants timeout
                      (if current_tag \<noteq> latest_tag
                       then updates @ [\<lparr>const_name = cname, repository = repo,
                                         from_tag = current_tag, to_tag = latest_tag\<rparr>]
                       else updates))))"

text \<open>\<open>sorted\<close> with a key is stable, as \<open>sort_key\<close> is.\<close>

definition compute_updates ::
  "network \<Rightarrow> (string \<times> string) list \<Rightarrow> constants \<Rightarrow> int
     \<Rightarrow> (exn + ImageUpdate list) option" where
  "compute_updates net targets constants timeout =
     (case compute_loop net targets constants timeout [] of
        None \<Rightarrow> None
      | Some (Inl e) \<Rightarrow> Some (Inl e)
      | Some (Inr updates) \<Rightarrow> Some (Inr (sort_key const_name updates)))"

subsection \<open>Applying the updates\<close>

text \<open>
  \<open>s.replace(old, new, 1)\<close>: the first occurrence of \<open>old\<close> in \<open>s\<close>, from the left,
  is replaced; an empty \<open>old\<close> occurs at the start.
\<close>

fun replace_first :: "string \<Rightarrow> string \<Rightarrow> string \<Rightarrow> string" where
  "replace_first old new [] = (if old = [] then new else [])"
| "replace_first old new (c # cs) =
     (if prefix old (c # cs) then new @ drop (length old) (c # cs)
      else c # replace_first old new cs)"

text \<open>The position that index \<open>i\<close> denotes in a list of length \<open>n\<close>, if any.\<close>

definition list_index :: "nat \<Rightarrow> int \<Rightarrow> nat option" where
  "list_index n i =
     (if 0 \<le> i \<and> i < int n then Some (nat i)
      else if - int n \<le> i \<and> i < 0 then Some (nat (int n + i))
      else None)"

fun apply_loop :: "ImageUpdate list \<Rightarrow> constants \<Rightarrow> string list \<Rightarrow> exn + string list" where
  "apply_loop [] constants updated_lines = Inr updated_lines"
| "apply_loop (update # updates) constants updated_lines =
     (case constants (const_name update) of
        None \<Rightarrow> Inl (KeyError (const_name update))
      | Some (line_index, current_value) \<Rightarrow>
          (case replace_image_tag current_value (to_tag update) of
             Inl e \<Rightarrow> Inl e
           | Inr new_value \<Rightarrow>
               (case list_index (length updated_lines) line_index of
                  None \<Rightarrow> Inl IndexError
                | Some k \<Rightarrow>
                    apply_loop updates constants
                      (updated_lines[k := replace_first current_value new_value
                                             (updated_lines ! k)]))))"

definition apply_updates ::
  "string list \<Rightarrow> constants \<Rightarrow> ImageUpdate list \<Rightarrow> exn + string list" where
  "apply_updates lines constants updates = apply_loop updates constants lines"

subsection \<open>The report and the run\<close>

text \<open>\<open>"\n".join(lines)\<close>.\<close>

fun join_lines :: "string list \<Rightarrow> string" where
  "join_lines [] = []"
| "join_lines [l] = l"
| "join_lines (l # ls) = l @ [CHR 0x0A] @ join_lines ls"

text \<open>The text of the report; the clock's reading is a parameter.\<close>

definition report_text :: "string \<Rightarrow> ImageUpdate list \<Rightarrow> string" where
  "report_text timestamp updates =
     join_lines
       ([''## Scanner Governance'', [], ''Generated at: `'' @ timestamp @ ''`'', []] @
        (if updates = []
         then [''No scanner image updates were detected.'', []]
         else [''Updated image tags:'', []] @
              map (\<lambda>u. ''- `'' @ DOCKER_HUB_NAMESPACE @ ''/'' @ repository u @ ''`: `'' @
                        from_tag u @ ''` -> `'' @ to_tag u @ ''`'') updates @
              [[], ''Regression validation is executed by CI before opening this PR.'',
               []]))"

text \<open>
  \<open>text.splitlines(keepends=True)\<close>, for code points below 256: a line ends after a
  line boundary, and a carriage return followed by a line feed is one boundary.
\<close>

definition is_linebreak :: "char \<Rightarrow> bool" where
  "is_linebreak c = (c \<in> {CHR 0x0A, CHR 0x0B, CHR 0x0C, CHR 0x0D,
                           CHR 0x1C, CHR 0x1D, CHR 0x1E, CHR 0x85})"

function splitlines :: "string \<Rightarrow> string list" where
  "splitlines [] = []"
| "splitlines (c # cs) =
     (let body = takeWhile (\<lambda>x. \<not> is_linebreak x) (c # cs);
          rest = dropWhile (\<lambda>x. \<not> is_linebreak x) (c # cs) in
      case rest of
        [] \<Rightarrow> [body]
      | b # r \<Rightarrow>
          (case r of
             [] \<Rightarrow> [body @ [b]]
           | b' # r' \<Rightarrow>
               if b = CHR 0x0D \<and> b' = CHR 0x0A then (body @ [b, b']) # splitlines r'
               else (body @ [b]) # splitlines r))"
  by pat_completeness auto
termination
proof (relation "measure length")
  show "wf (measure length)" by simp
next
  fix c :: char and cs body rest b r b' r'
  assume rest: "rest = dropWhile (\<lambda>x. \<not> is_linebreak x) (c # cs)"
    and "rest = b # r" and "r = b' # r'"
  then have "length (b # b' # r') \<le> length (c # cs)"
    using length_dropWhile_le [of "\<lambda>x. \<not> is_linebreak x" "c # cs"] by simp
  then show "(r', c # cs) \<in> measure length" by simp
next
  fix c :: char and cs body rest b r b' r'
  assume rest: "rest = dropWhile (\<lambda>x. \<not> is_linebreak x) (c # cs)"
    and "rest = b # r" and "r = b' # r'"
  then have "length (b # r) \<le> length (c # cs)"
    using length_dropWhile_le [of "\<lambda>x. \<not> is_linebreak x" "c # cs"] by simp
  then show "(r, c # cs) \<in> measure length" by simp
qed

declare splitlines.simps(2) [simp del]

text \<open>
  The files are a map from a path to the text that \<open>read_text\<close> returns for it, and
  \<open>write_text\<close> stores the text that a later \<open>read_text\<close> returns. Reading and writing
  a file do not fail. The command line is the record of its three arguments.
\<close>

type_synonym files = "string \<rightharpoonup> string"

record args =
  images_file :: string
  report_file :: string
  timeout :: int

text \<open>How the run ends: \<open>main\<close> returns an exit status, or an exception leaves it.\<close>

datatype outcome = Returned int | Uncaught exn

definition on_exception :: "exn \<Rightarrow> outcome" where
  "on_exception e = (if caught_by_main e then Returned 1 else Uncaught e)"

definition main :: "network \<Rightarrow> string \<Rightarrow> args \<Rightarrow> files \<Rightarrow> (outcome \<times> files) option" where
  "main net timestamp a fs =
     (case fs (images_file a) of
        None \<Rightarrow> Some (Returned 1, fs)
      | Some text \<Rightarrow>
          let original_lines = splitlines text;
              constants = parse_image_constants original_lines in
          (case compute_updates net TARGET_CONST_TO_REPOSITORY constants (timeout a) of
             None \<Rightarrow> None
           | Some (Inl e) \<Rightarrow> Some (on_exception e, fs)
           | Some (Inr updates) \<Rightarrow>
               (case apply_updates original_lines constants updates of
                  Inl e \<Rightarrow> Some (on_exception e, fs)
                | Inr updated_lines \<Rightarrow>
                    let fs1 = (if updates \<noteq> []
                               then fs(images_file a \<mapsto> concat updated_lines) else fs);
                        fs2 = fs1(report_file a \<mapsto> report_text timestamp updates)
                    in Some (Returned 0, fs2))))"

section \<open>Auxiliary definitions\<close>

text \<open>
  Definitions that the statements and proofs below use: the shape of a line that matches
  the assignment pattern, and small inputs on which the properties are run.
\<close>

text \<open>The shape of a line that matches, and the groups it gives.\<close>

definition const_line :: "string \<Rightarrow> string \<Rightarrow> string \<Rightarrow> string \<Rightarrow> string \<Rightarrow> string \<Rightarrow> string" where
  "const_line indent cname ws1 ws2 val rest =
     indent @ cname @ ws1 @ ''='' @ ws2 @ [CHR 0x22] @ val @ [CHR 0x22] @ rest"

definition const_line_ok :: "string \<Rightarrow> string \<Rightarrow> string \<Rightarrow> string \<Rightarrow> string \<Rightarrow> bool" where
  "const_line_ok indent cname ws1 ws2 val =
     (list_all is_space indent \<and> cname \<noteq> [] \<and> is_ident_start (hd cname) \<and>
      list_all is_ident_char (tl cname) \<and> list_all is_space ws1 \<and> list_all is_space ws2 \<and>
      val \<noteq> [] \<and> CHR 0x22 \<notin> set val)"

definition single_page :: "string list \<Rightarrow> network" where
  "single_page tags = (\<lambda>u t. Payload (JObj [(''results'', JArr (map (\<lambda>n. JObj [(''name'', JStr n)]) tags))]))"

definition scenario_tags :: "string list" where
  "scenario_tags = [''v1.0.0'', ''v1.2.0'', ''v1.1.5'', ''latest'', ''v2.0.0-rc1'']"

definition go_line :: "string \<Rightarrow> string \<Rightarrow> string \<Rightarrow> string" where
  "go_line indent cname val = indent @ cname @ '' = '' @ [CHR 0x22] @ val @ [CHR 0x22, CHR 0x0A]"

definition duplicate_lines :: "string list" where
  "duplicate_lines =
     [go_line [] ''Go'' ''horuszup/horusec-go:v1.0.0'',
      ''// a comment'' @ [CHR 0x0A],
      go_line ''  '' ''Go'' ''horuszup/horusec-go:v1.1.0'']"

text \<open>
  What one item of the table asks of the plan: \<open>step_ok\<close> when its step raises nothing,
  \<open>step_fails\<close> when its step raises, and \<open>planned\<close>, the records it adds.
\<close>

definition step_ok :: "network \<Rightarrow> constants \<Rightarrow> int \<Rightarrow> string \<times> string \<Rightarrow> bool" where
  "step_ok net constants tmo cr =
     (case constants (fst cr) of
        None \<Rightarrow> False
      | Some (i, v) \<Rightarrow>
          CHR '':'' \<in> set v \<and>
          (case fetch_latest_semver_tag net (snd cr) tmo of
             Some (Inr lat) \<Rightarrow> True
           | _ \<Rightarrow> False))"

definition step_fails :: "network \<Rightarrow> constants \<Rightarrow> int \<Rightarrow> string \<times> string \<Rightarrow> bool" where
  "step_fails net constants tmo cr =
     (case constants (fst cr) of
        None \<Rightarrow> True
      | Some (i, v) \<Rightarrow>
          CHR '':'' \<notin> set v \<or>
          (case fetch_latest_semver_tag net (snd cr) tmo of
             Some (Inl e) \<Rightarrow> True
           | Some (Inr lat) \<Rightarrow> parse_semver lat = None
           | None \<Rightarrow> False))"

definition planned :: "network \<Rightarrow> constants \<Rightarrow> int \<Rightarrow> string \<times> string \<Rightarrow> ImageUpdate list" where
  "planned net constants tmo cr =
     (case constants (fst cr) of
        None \<Rightarrow> []
      | Some (i, v) \<Rightarrow>
          (case fetch_latest_semver_tag net (snd cr) tmo of
             Some (Inr lat) \<Rightarrow>
               if after_last_colon v \<noteq> lat
               then [\<lparr>const_name = fst cr, repository = snd cr,
                      from_tag = after_last_colon v, to_tag = lat\<rparr>]
               else []
           | _ \<Rightarrow> []))"

definition two_targets :: "(string \<times> string) list" where
  "two_targets = [(''Go'', ''horusec-go''), (''C'', ''horusec-c'')]"

definition two_lines :: "string list" where
  "two_lines =
     [go_line [] ''C'' ''horuszup/horusec-c:v1.1.5'',
      go_line [] ''Go'' ''horuszup/horusec-go:v1.0.0'']"

definition failing_file :: string where
  "failing_file =
     go_line [] ''C'' ''horuszup/horusec-c:v1.0.0'' @
     go_line [] ''Csharp'' ''horusec-csharp-v1.0.0''"

definition example_args :: args where
  "example_args = \<lparr>images_file = ''images.go'', report_file = ''report.md'', timeout = 15\<rparr>"













text \<open>The line that a record targets in a buffer of \<open>n\<close> lines, if its look-up succeeds.\<close>

definition target_of :: "nat \<Rightarrow> constants \<Rightarrow> ImageUpdate \<Rightarrow> nat option" where
  "target_of n constants u =
     (case constants (const_name u) of None \<Rightarrow> None | Some (i, v) \<Rightarrow> list_index n i)"

text \<open>Every look-up that \<open>apply_updates\<close> makes for a record succeeds.\<close>

definition lookup_ok :: "nat \<Rightarrow> constants \<Rightarrow> ImageUpdate \<Rightarrow> bool" where
  "lookup_ok n constants u =
     (case constants (const_name u) of
        None \<Rightarrow> False
      | Some (i, v) \<Rightarrow> CHR '':'' \<in> set v \<and> list_index n i \<noteq> None)"


definition go_update :: ImageUpdate where
  "go_update = \<lparr>const_name = ''Go'', repository = ''horusec-go'', from_tag = ''1'', to_tag = ''2''\<rparr>"

text \<open>
  A stable semantic version as the specification words it: the text
  \<open>v<major>.<minor>.<patch>\<close>, each component a non-empty string of decimal digits, and
  nothing else.
\<close>

definition spec_stable_semver :: "string \<Rightarrow> bool" where
  "spec_stable_semver tag =
     (\<exists>a b c. tag = ''v'' @ a @ ''.'' @ b @ ''.'' @ c
        \<and> a \<noteq> [] \<and> b \<noteq> [] \<and> c \<noteq> []
        \<and> list_all is_digit a \<and> list_all is_digit b \<and> list_all is_digit c)"

definition newline_tags :: "string list" where
  "newline_tags = [''v1.0.0'', ''v1.2.3'' @ [CHR 0x0A]]"

definition one_line :: "string list" where
  "one_line = [''Go = '' @ [CHR 0x22] @ ''x:1'' @ [CHR 0x22]]"

section \<open>Lemmas\<close>

lemma scan_run:
  assumes "\<forall>x \<in> set xs. P x" and "ys = [] \<or> \<not> P (hd ys)"
  shows "takeWhile P (xs @ ys) = xs" and "dropWhile P (xs @ ys) = ys"
proof -
  from assms(2) have t: "takeWhile P ys = []" and d: "dropWhile P ys = ys"
    by (cases ys; simp)+
  from assms(1) show "takeWhile P (xs @ ys) = xs"
    by (simp add: takeWhile_append2 t)
  from assms(1) show "dropWhile P (xs @ ys) = ys"
    by (simp add: dropWhile_append2 d)
qed

lemma digit_char_is_digit: "d < 10 \<Longrightarrow> is_digit (digit_char d)"
proof -
  assume "d < 10"
  then have "d = 0 \<or> d = 1 \<or> d = 2 \<or> d = 3 \<or> d = 4 \<or> d = 5 \<or> d = 6
    \<or> d = 7 \<or> d = 8 \<or> d = 9" by arith
  then show ?thesis
    by (elim disjE) (simp_all add: digit_char_def is_digit_def char_of_def bit_Suc_0_iff)
qed

lemma digit_val_digit_char: "d < 10 \<Longrightarrow> digit_val (digit_char d) = d"
  by (simp add: digit_val_def digit_char_def)

lemma str_of_nat_nonempty: "str_of_nat n \<noteq> []"
  by (subst str_of_nat.simps) simp

lemma str_of_nat_digits: "\<forall>c \<in> set (str_of_nat n). is_digit c"
proof (induction n rule: str_of_nat.induct)
  case (1 n)
  show ?case
  proof (cases "n < 10")
    case True
    then show ?thesis by (subst str_of_nat.simps) (simp add: digit_char_is_digit)
  next
    case False
    with "1.IH" have "\<forall>c \<in> set (str_of_nat (n div 10)). is_digit c" by simp
    with False show ?thesis
      by (subst str_of_nat.simps) (simp add: digit_char_is_digit)
  qed
qed

lemma int_of_digits_snoc: "int_of_digits (s @ [c]) = 10 * int_of_digits s + digit_val c"
  by (simp add: int_of_digits_def)

lemma int_of_digits_str_of_nat: "int_of_digits (str_of_nat n) = n"
proof (induction n rule: str_of_nat.induct)
  case (1 n)
  show ?case
  proof (cases "n < 10")
    case True
    then show ?thesis
      by (subst str_of_nat.simps) (simp add: int_of_digits_def digit_val_digit_char)
  next
    case False
    with "1.IH" have "int_of_digits (str_of_nat (n div 10)) = n div 10" by simp
    with False show ?thesis
      by (subst str_of_nat.simps) (simp add: int_of_digits_snoc digit_val_digit_char)
  qed
qed

lemma not_digit_dot: "\<not> is_digit CHR ''.''" and not_digit_newline: "\<not> is_digit (CHR 0x0A)"
  by (simp_all add: is_digit_def)

lemma SEMVER_RE_match_text:
  assumes d1: "\<forall>c \<in> set g1. is_digit c" "g1 \<noteq> []"
    and d2: "\<forall>c \<in> set g2. is_digit c" "g2 \<noteq> []"
    and d3: "\<forall>c \<in> set g3. is_digit c" "g3 \<noteq> []"
    and e: "e = [] \<or> e = [CHR 0x0A]"
  shows "SEMVER_RE_match (''v'' @ g1 @ ''.'' @ g2 @ ''.'' @ g3 @ e) = Some (g1, g2, g3)"
proof -
  have e': "e = [] \<or> \<not> is_digit (hd e)" using e not_digit_newline by auto
  have s3: "takeWhile is_digit (g3 @ e) = g3" "dropWhile is_digit (g3 @ e) = e"
    using scan_run [OF d3(1) e'] by simp_all
  have s2: "takeWhile is_digit (g2 @ CHR ''.'' # g3 @ e) = g2"
    "dropWhile is_digit (g2 @ CHR ''.'' # g3 @ e) = CHR ''.'' # g3 @ e"
    using scan_run [OF d2(1), of "CHR ''.'' # g3 @ e"] not_digit_dot by simp_all
  have s1: "takeWhile is_digit (g1 @ CHR ''.'' # g2 @ CHR ''.'' # g3 @ e) = g1"
    "dropWhile is_digit (g1 @ CHR ''.'' # g2 @ CHR ''.'' # g3 @ e)
       = CHR ''.'' # g2 @ CHR ''.'' # g3 @ e"
    using scan_run [OF d1(1), of "CHR ''.'' # g2 @ CHR ''.'' # g3 @ e"] not_digit_dot
    by simp_all
  show ?thesis
    using d1(2) d2(2) d3(2) e by (auto simp: SEMVER_RE_match_def s1 s2 s3)
qed

lemma SEMVER_RE_match_SomeD:
  assumes "SEMVER_RE_match tag = Some (g1, g2, g3)"
  shows "\<exists>e. tag = ''v'' @ g1 @ ''.'' @ g2 @ ''.'' @ g3 @ e \<and> (e = [] \<or> e = [CHR 0x0A])
    \<and> g1 \<noteq> [] \<and> g2 \<noteq> [] \<and> g3 \<noteq> []
    \<and> (\<forall>c \<in> set g1. is_digit c) \<and> (\<forall>c \<in> set g2. is_digit c) \<and> (\<forall>c \<in> set g3. is_digit c)"
proof -
  from assms obtain r0 where tag: "tag = CHR ''v'' # r0"
    by (auto simp: SEMVER_RE_match_def split: list.splits if_splits)
  from assms tag have g1: "g1 = takeWhile is_digit r0" "g1 \<noteq> []"
    by (auto simp: SEMVER_RE_match_def Let_def split: list.splits if_splits)
  from assms tag obtain r2 where r1: "dropWhile is_digit r0 = CHR ''.'' # r2"
    by (auto simp: SEMVER_RE_match_def Let_def split: list.splits if_splits)
  from assms tag r1 have g2: "g2 = takeWhile is_digit r2" "g2 \<noteq> []"
    by (auto simp: SEMVER_RE_match_def Let_def split: list.splits if_splits)
  from assms tag r1 obtain r4 where r3: "dropWhile is_digit r2 = CHR ''.'' # r4"
    by (auto simp: SEMVER_RE_match_def Let_def split: list.splits if_splits)
  from assms tag r1 r3 have g3: "g3 = takeWhile is_digit r4" "g3 \<noteq> []"
    and e: "dropWhile is_digit r4 = [] \<or> dropWhile is_digit r4 = [CHR 0x0A]"
    by (auto simp: SEMVER_RE_match_def Let_def split: list.splits if_splits)
  have "r0 = g1 @ CHR ''.'' # r2" using takeWhile_dropWhile_id [of is_digit r0] g1 r1 by simp
  moreover have "r2 = g2 @ CHR ''.'' # r4" using takeWhile_dropWhile_id [of is_digit r2] g2 r3 by simp
  moreover have "r4 = g3 @ dropWhile is_digit r4" using takeWhile_dropWhile_id [of is_digit r4] g3 by simp
  ultimately have "tag = ''v'' @ g1 @ ''.'' @ g2 @ ''.'' @ g3 @ dropWhile is_digit r4"
    using tag by simp
  moreover have "\<forall>c \<in> set g1. is_digit c" "\<forall>c \<in> set g2. is_digit c" "\<forall>c \<in> set g3. is_digit c"
    using g1 g2 g3 by (auto dest: set_takeWhileD)
  ultimately show ?thesis using e g1 g2 g3 by blast
qed

lemma parse_semver_format_version: "parse_semver (format_version v) = Some v"
proof -
  obtain a b c where v: "v = (a, b, c)" by (cases v) auto
  have "SEMVER_RE_match (''v'' @ str_of_nat a @ ''.'' @ str_of_nat b @ ''.'' @ str_of_nat c @ [])
          = Some (str_of_nat a, str_of_nat b, str_of_nat c)"
    by (rule SEMVER_RE_match_text) (simp_all add: str_of_nat_digits str_of_nat_nonempty)
  then show ?thesis
    by (simp add: v parse_semver_def int_of_digits_str_of_nat)
qed

lemma class_facts:
  "\<not> is_space c \<or> \<not> is_ident_start c"
  "\<not> is_space c \<or> \<not> is_ident_char c"
  "\<not> is_space CHR ''=''" "\<not> is_ident_char CHR ''=''"
  "\<not> is_space (CHR 0x22)" "\<not> is_space CHR '':''" "\<not> is_ident_char CHR '':''"
  by (auto simp: is_space_def is_ident_start_def is_ident_char_def is_digit_def)

lemma CONST_LINE_RE_match_text:
  assumes ok: "const_line_ok indent cname ws1 ws2 val"
  shows "CONST_LINE_RE_match (const_line indent cname ws1 ws2 val rest) = Some (indent, cname, val)"
proof -
  from ok obtain c cs where cname: "cname = c # cs" and c: "is_ident_start c"
    and cs: "\<forall>x \<in> set cs. is_ident_char x"
    by (cases cname) (auto simp: const_line_ok_def list_all_iff)
  from ok have ind: "\<forall>x \<in> set indent. is_space x" and w1: "\<forall>x \<in> set ws1. is_space x"
    and w2: "\<forall>x \<in> set ws2. is_space x" and v: "\<forall>x \<in> set val. x \<noteq> CHR 0x22" "val \<noteq> []"
    by (auto simp: const_line_ok_def list_all_iff)
  let ?q = "CHR 0x22"
  let ?t5 = "val @ ?q # rest"
  let ?t4 = "ws2 @ ?q # ?t5"
  let ?t3 = "ws1 @ CHR ''='' # ?t4"
  let ?t2 = "cs @ ?t3"
  let ?t1 = "indent @ c # ?t2"
  have line: "const_line indent cname ws1 ws2 val rest = ?t1"
    by (simp add: const_line_def cname)
  have s1: "takeWhile is_space ?t1 = indent" "dropWhile is_space ?t1 = c # ?t2"
    using scan_run [OF ind, of "c # ?t2"] c class_facts(1) [of c] by auto
  have hd3: "?t3 = [] \<or> \<not> is_ident_char (hd ?t3)"
    using w1 class_facts(2,4) by (cases ws1) auto
  have s2: "takeWhile is_ident_char ?t2 = cs" "dropWhile is_ident_char ?t2 = ?t3"
    using scan_run [OF cs hd3] by auto
  have s3: "dropWhile is_space ?t3 = CHR ''='' # ?t4"
    using scan_run(2) [OF w1, of "CHR ''='' # ?t4"] class_facts(3) by auto
  have s4: "dropWhile is_space ?t4 = ?q # ?t5"
    using scan_run(2) [OF w2, of "?q # ?t5"] class_facts(5) by auto
  have s5: "takeWhile (\<lambda>x. x \<noteq> ?q) ?t5 = val" "dropWhile (\<lambda>x. x \<noteq> ?q) ?t5 = ?q # rest"
    using scan_run [of val "\<lambda>x. x \<noteq> ?q" "?q # rest"] v(1) by auto
  show ?thesis
    unfolding line CONST_LINE_RE_match_def
    by (simp add: s1 s2 s3 s4 s5 c v(2) cname)
qed

lemma CONST_LINE_RE_match_SomeD:
  assumes m: "CONST_LINE_RE_match line = Some (indent, cname, val)"
  shows "\<exists>ws1 ws2 rest. line = const_line indent cname ws1 ws2 val rest
           \<and> const_line_ok indent cname ws1 ws2 val"
proof -
  let ?q = "CHR 0x22"
  have ind: "indent = takeWhile is_space line"
    using m by (auto simp: CONST_LINE_RE_match_def Let_def split: list.splits if_splits)
  from m obtain c r1 where r0: "dropWhile is_space line = c # r1" and c: "is_ident_start c"
    by (auto simp: CONST_LINE_RE_match_def Let_def split: list.splits if_splits)
  from m r0 have cname: "cname = c # takeWhile is_ident_char r1"
    by (auto simp: CONST_LINE_RE_match_def Let_def split: list.splits if_splits)
  define ws1 where "ws1 = takeWhile is_space (dropWhile is_ident_char r1)"
  from m r0 obtain r3 where r2: "dropWhile is_space (dropWhile is_ident_char r1) = CHR ''='' # r3"
    by (auto simp: CONST_LINE_RE_match_def Let_def split: list.splits if_splits)
  define ws2 where "ws2 = takeWhile is_space r3"
  from m r0 r2 obtain r4 where r4: "dropWhile is_space r3 = ?q # r4"
    by (auto simp: CONST_LINE_RE_match_def Let_def split: list.splits if_splits)
  from m r0 r2 r4 have val: "val = takeWhile (\<lambda>x. x \<noteq> ?q) r4" "val \<noteq> []"
    and r5: "dropWhile (\<lambda>x. x \<noteq> ?q) r4 \<noteq> []"
    by (auto simp: CONST_LINE_RE_match_def Let_def split: list.splits if_splits)
  from r5 obtain rest where rest: "dropWhile (\<lambda>x. x \<noteq> ?q) r4 = ?q # rest"
    using hd_dropWhile [of "\<lambda>x. x \<noteq> ?q" r4] by (cases "dropWhile (\<lambda>x. x \<noteq> ?q) r4") auto
  have "line = indent @ c # r1"
    using takeWhile_dropWhile_id [of is_space line] ind r0 by simp
  moreover have "r1 = takeWhile is_ident_char r1 @ ws1 @ CHR ''='' # r3"
    using takeWhile_dropWhile_id [of is_ident_char r1]
      takeWhile_dropWhile_id [of is_space "dropWhile is_ident_char r1"] r2 ws1_def by simp
  moreover have "r3 = ws2 @ ?q # r4"
    using takeWhile_dropWhile_id [of is_space r3] r4 ws2_def by simp
  moreover have "r4 = val @ ?q # rest"
    using takeWhile_dropWhile_id [of "\<lambda>x. x \<noteq> ?q" r4] val rest by simp
  ultimately have "line = const_line indent cname ws1 ws2 val rest"
    by (simp add: const_line_def cname)
  moreover have "const_line_ok indent cname ws1 ws2 val"
    using c val by (auto simp: const_line_ok_def list_all_iff ind cname ws1_def ws2_def
        dest: set_takeWhileD)
  ultimately show ?thesis by blast
qed

lemma parse_loop_snoc:
  "parse_loop k (lines @ [l]) m =
     (case CONST_LINE_RE_match l of
        None \<Rightarrow> parse_loop k lines m
      | Some (indent, c, v) \<Rightarrow> (parse_loop k lines m)(c \<mapsto> (int (k + length lines), v)))"
proof (induction lines arbitrary: k m)
  case Nil
  show ?case by (auto simp: fun_eq_iff split: option.splits)
next
  case (Cons a lines)
  show ?case
    by (simp add: Cons.IH split: option.splits prod.splits)
qed

lemma parse_loop_iff:
  "parse_loop k lines m c = Some (i, v) \<longleftrightarrow>
     (\<exists>j < length lines. i = int (k + j)
        \<and> (\<exists>indent. CONST_LINE_RE_match (lines ! j) = Some (indent, c, v))
        \<and> (\<forall>j'. j < j' \<and> j' < length lines \<longrightarrow>
             (\<forall>indent' v'. CONST_LINE_RE_match (lines ! j') \<noteq> Some (indent', c, v'))))
     \<or> (m c = Some (i, v)
        \<and> (\<forall>j < length lines.
             \<forall>indent' v'. CONST_LINE_RE_match (lines ! j) \<noteq> Some (indent', c, v')))"
  (is "?L lines \<longleftrightarrow> ?A lines \<or> ?B lines")
proof (induction lines rule: rev_induct)
  case Nil
  show ?case by simp
next
  case (snoc l lines)
  let ?n = "length lines"
  show ?case
  proof (cases "\<exists>indent' v'. CONST_LINE_RE_match l = Some (indent', c, v')")
    case True
    then obtain ind0 v0 where l: "CONST_LINE_RE_match l = Some (ind0, c, v0)" by blast
    have L: "?L (lines @ [l]) \<longleftrightarrow> (i = int (k + ?n) \<and> v = v0)"
      by (auto simp: parse_loop_snoc l)
    have B: "\<not> ?B (lines @ [l])"
      using l by (auto simp: nth_append)
    have A: "?A (lines @ [l]) \<longleftrightarrow> (i = int (k + ?n) \<and> v = v0)"
    proof
      assume "?A (lines @ [l])"
      then obtain j where j: "j < Suc ?n" "i = int (k + j)"
        "\<exists>indent. CONST_LINE_RE_match ((lines @ [l]) ! j) = Some (indent, c, v)"
        "\<forall>j'. j < j' \<and> j' < Suc ?n \<longrightarrow>
             (\<forall>indent' v'. CONST_LINE_RE_match ((lines @ [l]) ! j') \<noteq> Some (indent', c, v'))"
        by auto
      have "j = ?n"
      proof (rule ccontr)
        assume "j \<noteq> ?n"
        with j(1) have "j < ?n" by simp
        moreover have "?n < Suc ?n" by simp
        ultimately have "CONST_LINE_RE_match ((lines @ [l]) ! ?n) \<noteq> Some (ind0, c, v0)"
          using j(4) by blast
        with l show False by simp
      qed
      with j(2,3) l show "i = int (k + ?n) \<and> v = v0" by simp
    next
      assume "i = int (k + ?n) \<and> v = v0"
      with l show "?A (lines @ [l])"
        by (intro exI [of _ ?n]) auto
    qed
    from L A B show ?thesis by blast
  next
    case False
    have L: "?L (lines @ [l]) \<longleftrightarrow> ?L lines"
      using False by (auto simp: parse_loop_snoc split: option.splits)
    have B: "?B (lines @ [l]) \<longleftrightarrow> ?B lines"
      using False by (auto simp: nth_append less_Suc_eq)
    have A: "?A (lines @ [l]) \<longleftrightarrow> ?A lines"
    proof
      assume "?A (lines @ [l])"
      then obtain j where j: "j < Suc ?n" "i = int (k + j)"
        "\<exists>indent. CONST_LINE_RE_match ((lines @ [l]) ! j) = Some (indent, c, v)"
        "\<forall>j'. j < j' \<and> j' < Suc ?n \<longrightarrow>
             (\<forall>indent' v'. CONST_LINE_RE_match ((lines @ [l]) ! j') \<noteq> Some (indent', c, v'))"
        by auto
      from j(3) False have "j \<noteq> ?n" by auto
      with j(1) have jn: "j < ?n" by simp
      have "\<forall>j'. j < j' \<and> j' < ?n \<longrightarrow>
             (\<forall>indent' v'. CONST_LINE_RE_match (lines ! j') \<noteq> Some (indent', c, v'))"
      proof (intro allI impI)
        fix j' indent' v' assume "j < j' \<and> j' < ?n"
        with j(4) have "CONST_LINE_RE_match ((lines @ [l]) ! j') \<noteq> Some (indent', c, v')"
          by simp
        with \<open>j < j' \<and> j' < ?n\<close> show "CONST_LINE_RE_match (lines ! j') \<noteq> Some (indent', c, v')"
          by (simp add: nth_append)
      qed
      with jn j(2,3) show "?A lines"
        by (intro exI [of _ j]) (simp add: nth_append)
    next
      assume "?A lines"
      then obtain j where j: "j < ?n" "i = int (k + j)"
        "\<exists>indent. CONST_LINE_RE_match (lines ! j) = Some (indent, c, v)"
        "\<forall>j'. j < j' \<and> j' < ?n \<longrightarrow>
             (\<forall>indent' v'. CONST_LINE_RE_match (lines ! j') \<noteq> Some (indent', c, v'))"
        by auto
      have "\<forall>j'. j < j' \<and> j' < Suc ?n \<longrightarrow>
             (\<forall>indent' v'. CONST_LINE_RE_match ((lines @ [l]) ! j') \<noteq> Some (indent', c, v'))"
      proof (intro allI impI)
        fix j' indent' v' assume a: "j < j' \<and> j' < Suc ?n"
        show "CONST_LINE_RE_match ((lines @ [l]) ! j') \<noteq> Some (indent', c, v')"
        proof (cases "j' = ?n")
          case True
          with False show ?thesis by simp
        next
          case False
          with a have "j' < ?n" by simp
          with a j(4) show ?thesis by (simp add: nth_append)
        qed
      qed
      with j(1,2,3) show "?A (lines @ [l])"
        by (intro exI [of _ j]) (simp add: nth_append)
    qed
    from L A B snoc.IH show ?thesis by blast
  qed
qed

lemma parse_image_constants_iff:
  "parse_image_constants lines c = Some (i, v) \<longleftrightarrow>
     (\<exists>j < length lines. i = int j
        \<and> (\<exists>indent. CONST_LINE_RE_match (lines ! j) = Some (indent, c, v))
        \<and> (\<forall>j'. j < j' \<and> j' < length lines \<longrightarrow>
             (\<forall>indent' v'. CONST_LINE_RE_match (lines ! j') \<noteq> Some (indent', c, v'))))"
  unfolding parse_image_constants_def
  by (subst parse_loop_iff) simp

lemma version_le_refl: "version_le v v"
  by (simp add: version_le_def)

lemma version_le_trans: "version_le u v \<Longrightarrow> version_le v w \<Longrightarrow> version_le u w"
  by (cases u; cases v; cases w) (auto simp: version_le_def)

lemma version_le_total: "\<not> version_less u v \<Longrightarrow> version_le v u"
  by (cases u; cases v) (auto simp: version_le_def)

lemma max_from_mem: "max_from m xs \<in> set (m # xs)"
  by (induction xs arbitrary: m) auto

lemma max_from_ge: "version_le m (max_from m xs) \<and> (\<forall>x \<in> set xs. version_le x (max_from m xs))"
proof (induction xs arbitrary: m)
  case Nil
  show ?case by (simp add: version_le_refl)
next
  case (Cons x xs)
  let ?m' = "if version_less m x then x else m"
  have m: "version_le m ?m'" by (simp add: version_le_def)
  have x: "version_le x ?m'" by (simp add: version_le_refl version_le_total)
  from Cons.IH [of ?m'] have top: "version_le ?m' (max_from ?m' xs)"
    and rest: "\<forall>y \<in> set xs. version_le y (max_from ?m' xs)" by simp_all
  from m x top rest show ?case
    by (auto intro: version_le_trans simp del: version_less.simps)
qed

lemma set_map_filter: "set (List.map_filter f xs) = {y. \<exists>x \<in> set xs. f x = Some y}"
  by (induction xs) (auto simp: List.map_filter_simps split: option.splits)

lemma select_latest_error:
  "select_latest repo tags = Inl e \<longleftrightarrow>
     e = ValueError (''No stable semantic tag found for '' @ repo)
       \<and> (\<forall>t \<in> set tags. parse_semver t = None)"
proof -
  have "(List.map_filter parse_semver tags = [])
          = (set (List.map_filter parse_semver tags) = {})" by simp
  also have "\<dots> = (\<forall>t \<in> set tags. parse_semver t = None)"
    unfolding set_map_filter by (auto simp: not_Some_eq [symmetric] simp del: not_Some_eq)
  finally have "List.map_filter parse_semver tags = []
                 \<longleftrightarrow> (\<forall>t \<in> set tags. parse_semver t = None)" .
  then show ?thesis
    by (auto simp: select_latest_def split: list.splits)
qed

lemma select_latest_max:
  assumes "t0 \<in> set tags" and "parse_semver t0 \<noteq> None"
  shows "\<exists>t \<in> set tags. \<exists>v. parse_semver t = Some v
           \<and> (\<forall>t' \<in> set tags. \<forall>w. parse_semver t' = Some w \<longrightarrow> version_le w v)
           \<and> select_latest repo tags = Inr (format_version v)"
proof -
  let ?vs = "List.map_filter parse_semver tags"
  from assms obtain v0 where "v0 \<in> set ?vs" by (auto simp: set_map_filter)
  then obtain x xs where vs: "?vs = x # xs" by (cases ?vs) auto
  let ?v = "max_from x xs"
  have "?v \<in> set ?vs" using max_from_mem [of x xs] vs by simp
  then obtain t where t: "t \<in> set tags" "parse_semver t = Some ?v"
    by (auto simp: set_map_filter)
  have "\<forall>t' \<in> set tags. \<forall>w. parse_semver t' = Some w \<longrightarrow> version_le w ?v"
  proof (intro ballI allI impI)
    fix t' w assume "t' \<in> set tags" "parse_semver t' = Some w"
    then have "w \<in> set (x # xs)" using vs [symmetric] by (auto simp: set_map_filter)
    then show "version_le w ?v" using max_from_ge [of x xs] by auto
  qed
  moreover have "select_latest repo tags = Inr (format_version ?v)"
    by (simp add: select_latest_def vs)
  ultimately show ?thesis using t by blast
qed

lemma fetch_latest_semver_tag_max_parsed:
  assumes "fetch_tags net repo tmo = Some (Inr tags)"
  shows "(fetch_latest_semver_tag net repo tmo
            = Some (Inl (ValueError (''No stable semantic tag found for '' @ repo)))
          \<longleftrightarrow> (\<forall>t \<in> set tags. parse_semver t = None))
       \<and> ((\<exists>t \<in> set tags. parse_semver t \<noteq> None) \<longrightarrow>
            (\<exists>t \<in> set tags. \<exists>v. parse_semver t = Some v
               \<and> (\<forall>t' \<in> set tags. \<forall>w. parse_semver t' = Some w \<longrightarrow> version_le w v)
               \<and> fetch_latest_semver_tag net repo tmo = Some (Inr (format_version v))
               \<and> parse_semver (format_version v) = Some v))"
proof -
  have f: "fetch_latest_semver_tag net repo tmo = Some (select_latest repo tags)"
    using assms by (simp add: fetch_latest_semver_tag_def)
  have "select_latest repo tags = Inl (ValueError (''No stable semantic tag found for '' @ repo))
          \<longleftrightarrow> (\<forall>t \<in> set tags. parse_semver t = None)"
    by (simp add: select_latest_error)
  moreover have "(\<exists>t \<in> set tags. parse_semver t \<noteq> None) \<longrightarrow>
            (\<exists>t \<in> set tags. \<exists>v. parse_semver t = Some v
               \<and> (\<forall>t' \<in> set tags. \<forall>w. parse_semver t' = Some w \<longrightarrow> version_le w v)
               \<and> select_latest repo tags = Inr (format_version v)
               \<and> parse_semver (format_version v) = Some v)"
    using select_latest_max [of _ tags repo] parse_semver_format_version by blast
  ultimately show ?thesis unfolding f by simp
qed

lemma parse_loop_None_iff:
  "parse_loop k lines m c = None \<longleftrightarrow>
     m c = None \<and> (\<forall>j < length lines.
        \<forall>indent v. CONST_LINE_RE_match (lines ! j) \<noteq> Some (indent, c, v))"
proof (induction lines rule: rev_induct)
  case Nil
  show ?case by simp
next
  case (snoc l lines)
  show ?case
  proof (cases "CONST_LINE_RE_match l")
    case None
    then show ?thesis
      using snoc.IH by (auto simp: parse_loop_snoc nth_append less_Suc_eq)
  next
    case (Some g)
    obtain ind c' v' where g: "g = (ind, c', v')" by (cases g) auto
    show ?thesis
    proof (cases "c' = c")
      case True
      have "(lines @ [l]) ! length lines = l" by simp
      with Some g True show ?thesis
        by (auto simp: parse_loop_snoc intro!: exI [of _ "length lines"])
    next
      case False
      with Some g show ?thesis
        using snoc.IH by (auto simp: parse_loop_snoc nth_append less_Suc_eq)
    qed
  qed
qed

lemma class_eval:
  "is_space CHR '' ''" "\<not> is_space CHR ''G''" "is_ident_start CHR ''G''"
  "is_ident_char CHR ''o''" "\<not> is_ident_char CHR '' ''" "\<not> is_space CHR ''=''"
  "\<not> is_space (CHR 0x22)" "\<not> is_space CHR ''/''" "\<not> is_ident_start CHR ''/''"
  by (simp_all add: is_space_def is_ident_start_def is_ident_char_def is_digit_def)

lemma replace_first_occurs:
  "s = pre @ old @ post \<Longrightarrow>
     \<exists>pre' post'. s = pre' @ old @ post' \<and> (\<forall>new. replace_first old new s = pre' @ new @ post')"
proof (induction s arbitrary: pre)
  case Nil
  then show ?case by simp
next
  case (Cons c cs)
  show ?case
  proof (cases "prefix old (c # cs)")
    case True
    then obtain post' where p: "c # cs = old @ post'" by (auto simp: prefix_def)
    then have "\<forall>new. replace_first old new (c # cs) = [] @ new @ post'"
      using True by (metis append_Nil append_eq_conv_conj replace_first.simps(2))
    with p show ?thesis by (metis append_Nil)
  next
    case False
    have "pre \<noteq> []"
    proof
      assume "pre = []"
      with Cons.prems have "prefix old (c # cs)" by simp
      with False show False by simp
    qed
    then obtain pre2 where pre: "pre = c # pre2" and cs: "cs = pre2 @ old @ post"
      using Cons.prems by (cases pre) auto
    from Cons.IH [OF cs] obtain pre' post' where
      q: "cs = pre' @ old @ post'" "\<forall>new. replace_first old new cs = pre' @ new @ post'"
      by blast
    have "c # cs = (c # pre') @ old @ post'" using q(1) by simp
    moreover have "\<forall>new. replace_first old new (c # cs) = (c # pre') @ new @ post'"
      using False q(2) by simp
    ultimately show ?thesis by blast
  qed
qed

lemma replace_first_at:
  assumes "x \<in> set v" and "x \<notin> set pre" and "pre \<noteq> []" and "last pre \<notin> set v"
  shows "replace_first v new (pre @ v @ post) = pre @ new @ post"
  using assms(2,3,4)
proof (induction pre)
  case Nil
  then show ?case by simp
next
  case (Cons c pre)
  have v: "v \<noteq> []" using assms(1) by auto
  have np: "\<not> prefix v ((c # pre) @ v @ post)"
  proof
    assume "prefix v ((c # pre) @ v @ post)"
    moreover have "prefix (c # pre) ((c # pre) @ v @ post)" by simp
    ultimately have "prefix v (c # pre) \<or> prefix (c # pre) v"
      by (rule prefix_same_cases)
    then show False
    proof
      assume "prefix v (c # pre)"
      then have "set v \<subseteq> set (c # pre)" by (rule set_mono_prefix)
      with assms(1) Cons.prems(1) show False by auto
    next
      assume "prefix (c # pre) v"
      then have "set (c # pre) \<subseteq> set v" by (rule set_mono_prefix)
      moreover have "last (c # pre) \<in> set (c # pre)" by (rule last_in_set) simp
      ultimately show False using Cons.prems(3) by auto
    qed
  qed
  show ?case
  proof (cases "pre = []")
    case True
    from v obtain a w where vw: "v = a # w" by (cases v) auto
    have "replace_first v new (v @ post) = new @ post"
      by (simp add: vw)
    with np True show ?thesis by simp
  next
    case False
    with Cons.prems have "replace_first v new (pre @ v @ post) = pre @ new @ post"
      by (intro Cons.IH) auto
    with np show ?thesis by simp
  qed
qed

lemma list_index_in_range: "0 \<le> i \<Longrightarrow> i < int n \<Longrightarrow> list_index n i = Some (nat i)"
  by (simp add: list_index_def)

lemma list_index_bound: "list_index n i = Some k \<Longrightarrow> k < n"
  by (auto simp: list_index_def split: if_splits)

lemma apply_loop_length: "apply_loop ups constants ls = Inr res \<Longrightarrow> length res = length ls"
proof (induction ups arbitrary: ls)
  case Nil
  then show ?case by simp
next
  case (Cons u ups)
  from Cons.prems obtain k w where "apply_loop ups constants (ls[k := w]) = Inr res"
    by (auto split: option.splits sum.splits prod.splits)
  from Cons.IH [OF this] show ?case by simp
qed

lemma apply_loop_no_IndexError:
  assumes "\<forall>c i v. constants c = Some (i, v) \<longrightarrow> 0 \<le> i \<and> i < int (length ls)"
  shows "apply_loop ups constants ls \<noteq> Inl IndexError"
  using assms
proof (induction ups arbitrary: ls)
  case Nil
  show ?case by simp
next
  case (Cons u ups)
  show ?case
  proof (cases "constants (const_name u)")
    case None
    then show ?thesis by simp
  next
    case (Some e)
    obtain i v where e: "e = (i, v)" by (cases e) auto
    from Cons.prems Some e have r: "0 \<le> i" "i < int (length ls)" by auto
    show ?thesis
    proof (cases "replace_image_tag v (to_tag u)")
      case (Inl err)
      then have "err \<noteq> IndexError"
        by (auto simp: replace_image_tag_def split: if_splits)
      with Some e Inl show ?thesis by simp
    next
      case (Inr w)
      have "apply_loop ups constants (ls[nat i := replace_first v w (ls ! nat i)])
              \<noteq> Inl IndexError"
        using Cons.prems by (intro Cons.IH) simp
      with Some e Inr r show ?thesis by (simp add: list_index_in_range)
    qed
  qed
qed

lemma CONST_LINE_RE_match_occurs:
  assumes "CONST_LINE_RE_match line = Some (indent, cname, val)"
  shows "val \<noteq> [] \<and> CHR 0x22 \<notin> set val \<and> (\<exists>pre post. line = pre @ val @ post)"
proof -
  from CONST_LINE_RE_match_SomeD [OF assms] obtain ws1 ws2 rest where
    l: "line = const_line indent cname ws1 ws2 val rest"
    and ok: "const_line_ok indent cname ws1 ws2 val" by blast
  have "line = (indent @ cname @ ws1 @ ''='' @ ws2 @ [CHR 0x22]) @ val @ ([CHR 0x22] @ rest)"
    by (simp add: l const_line_def)
  then have "\<exists>pre post. line = pre @ val @ post" by blast
  with ok show ?thesis by (simp add: const_line_ok_def)
qed

lemma select_latest_formatted:
  "select_latest repo tags = Inr lat \<Longrightarrow> \<exists>v. lat = format_version v"
proof (cases "List.map_filter parse_semver tags")
  case Nil
  assume "select_latest repo tags = Inr lat"
  with Nil show ?thesis by (simp add: select_latest_def)
next
  case (Cons x xs)
  assume "select_latest repo tags = Inr lat"
  with Cons have "lat = format_version (max_from x xs)" by (simp add: select_latest_def)
  then show ?thesis by (rule exI)
qed

lemma fetch_latest_formatted:
  "fetch_latest_semver_tag net repo tmo = Some (Inr lat) \<Longrightarrow> \<exists>v. lat = format_version v"
proof -
  assume "fetch_latest_semver_tag net repo tmo = Some (Inr lat)"
  then obtain tags where "select_latest repo tags = Inr lat"
    by (auto simp: fetch_latest_semver_tag_def split: option.splits sum.splits)
  then show ?thesis by (rule select_latest_formatted)
qed

lemma fetch_latest_parses:
  "fetch_latest_semver_tag net repo tmo = Some (Inr lat) \<Longrightarrow> parse_semver lat \<noteq> None"
  using fetch_latest_formatted [of net repo tmo lat] parse_semver_format_version by auto

lemma step_fails_not_ok: "step_fails net constants tmo cr \<Longrightarrow> \<not> step_ok net constants tmo cr"
  by (auto simp: step_fails_def step_ok_def dest: fetch_latest_parses
      split: option.splits sum.splits)

lemma compute_loop_Inr_iff:
  "compute_loop net targets constants tmo acc = Some (Inr ups) \<longleftrightarrow>
     (\<forall>cr \<in> set targets. step_ok net constants tmo cr)
     \<and> ups = acc @ concat (map (planned net constants tmo) targets)"
proof (induction targets arbitrary: acc)
  case Nil
  show ?case by auto
next
  case (Cons cr targets)
  obtain c r where cr: "cr = (c, r)" by (cases cr) auto
  show ?case
  proof (cases "step_ok net constants tmo cr")
    case False
    then have "compute_loop net (cr # targets) constants tmo acc \<noteq> Some (Inr ups)"
      by (auto simp: cr step_ok_def extract_image_tag_def
          split: option.splits sum.splits if_splits)
    with False show ?thesis by simp
  next
    case True
    then obtain i v lat where s: "constants c = Some (i, v)" "CHR '':'' \<in> set v"
      "fetch_latest_semver_tag net r tmo = Some (Inr lat)"
      by (auto simp: cr step_ok_def split: option.splits sum.splits)
    have p: "parse_semver lat \<noteq> None" using s(3) by (rule fetch_latest_parses)
    have "compute_loop net (cr # targets) constants tmo acc
            = compute_loop net targets constants tmo (acc @ planned net constants tmo cr)"
      using s p by (auto simp: cr planned_def extract_image_tag_def)
    with True show ?thesis by (simp add: Cons.IH)
  qed
qed

lemma compute_loop_terminates:
  "\<forall>cr \<in> set targets. fetch_tags net (snd cr) tmo \<noteq> None \<Longrightarrow>
     compute_loop net targets constants tmo acc \<noteq> None"
proof (induction targets arbitrary: acc)
  case Nil
  show ?case by simp
next
  case (Cons cr targets)
  obtain c r where cr: "cr = (c, r)" by (cases cr) auto
  from Cons.prems have f: "fetch_latest_semver_tag net r tmo \<noteq> None"
    by (auto simp: cr fetch_latest_semver_tag_def split: option.splits sum.splits)
  from Cons.prems have "\<And>acc'. compute_loop net targets constants tmo acc' \<noteq> None"
    by (intro Cons.IH) simp
  with f show ?case
    by (auto simp: cr split: option.splits sum.splits)
qed

lemma compute_updates_Inr_iff:
  "compute_updates net targets constants tmo = Some (Inr ups) \<longleftrightarrow>
     (\<forall>cr \<in> set targets. step_ok net constants tmo cr)
     \<and> ups = sort_key const_name (concat (map (planned net constants tmo) targets))"
proof -
  have "compute_updates net targets constants tmo = Some (Inr ups) \<longleftrightarrow>
     (\<exists>l. compute_loop net targets constants tmo [] = Some (Inr l)
          \<and> ups = sort_key const_name l)"
    by (auto simp: compute_updates_def split: option.splits sum.splits)
  then show ?thesis by (auto simp: compute_loop_Inr_iff)
qed

lemma planned_cases:
  assumes "step_ok net constants tmo cr"
  obtains i v lat where "constants (fst cr) = Some (i, v)" "CHR '':'' \<in> set v"
    "extract_image_tag v = Inr (after_last_colon v)"
    "fetch_latest_semver_tag net (snd cr) tmo = Some (Inr lat)"
    "planned net constants tmo cr =
       (if after_last_colon v \<noteq> lat
        then [\<lparr>const_name = fst cr, repository = snd cr,
               from_tag = after_last_colon v, to_tag = lat\<rparr>] else [])"
  using assms
  by (auto simp: step_ok_def planned_def extract_image_tag_def split: option.splits sum.splits)

lemma planned_member:
  "u \<in> set (planned net constants tmo cr) \<Longrightarrow>
     const_name u = fst cr \<and> repository u = snd cr
     \<and> (\<exists>i v. constants (fst cr) = Some (i, v) \<and> from_tag u = after_last_colon v)
     \<and> fetch_latest_semver_tag net (snd cr) tmo = Some (Inr (to_tag u))
     \<and> from_tag u \<noteq> to_tag u"
proof -
  assume u: "u \<in> set (planned net constants tmo cr)"
  then obtain i v where c: "constants (fst cr) = Some (i, v)"
    by (cases "constants (fst cr)") (auto simp: planned_def)
  from u c obtain r where r: "fetch_latest_semver_tag net (snd cr) tmo = Some r"
    by (cases "fetch_latest_semver_tag net (snd cr) tmo") (auto simp: planned_def)
  from u c r obtain lat where "r = Inr lat"
    by (cases r) (auto simp: planned_def)
  with r have f: "fetch_latest_semver_tag net (snd cr) tmo = Some (Inr lat)" by simp
  from u c f have "after_last_colon v \<noteq> lat"
    and "u = \<lparr>const_name = fst cr, repository = snd cr,
                from_tag = after_last_colon v, to_tag = lat\<rparr>"
    by (auto simp: planned_def split: if_splits)
  with c f show ?thesis by simp
qed

lemma fetch_tags_single_page: "fetch_tags (single_page tags) repo tmo = Some (Inr tags)"
proof -
  have c: "collect_names (map (\<lambda>n. JObj [(''name'', JStr n)]) tags) acc = Inr (acc @ tags)"
    for acc
    by (induction tags arbitrary: acc) simp_all
  show ?thesis
    by (simp add: fetch_tags_def fetch_loop.simps single_page_def first_page_url_def
        extend_tags_def c)
qed

lemma digit_eval:
  "is_digit CHR ''0''" "is_digit CHR ''1''" "is_digit CHR ''2''" "is_digit CHR ''5''"
  "\<not> is_digit CHR ''.''" "\<not> is_digit CHR ''-''" "\<not> is_digit CHR ''a''"
  "digit_val CHR ''0'' = 0" "digit_val CHR ''1'' = 1" "digit_val CHR ''2'' = 2"
  "digit_val CHR ''5'' = 5"
  by (simp_all add: is_digit_def digit_val_def)

lemma select_latest_scenario: "select_latest repo scenario_tags = Inr ''v1.2.0''"
proof -
  have "List.map_filter parse_semver scenario_tags = [(1, 0, 0), (1, 2, 0), (1, 1, 5)]"
    by (simp add: scenario_tags_def List.map_filter_simps parse_semver_def
        SEMVER_RE_match_def Let_def digit_eval int_of_digits_def)
  moreover have "format_version (1, 2, 0) = ''v1.2.0''"
    by (simp add: str_of_nat.simps digit_char_def char_of_def bit_Suc_0_iff)
  ultimately show ?thesis by (simp add: select_latest_def)
qed

lemma fetch_latest_scenario:
  "fetch_latest_semver_tag (single_page scenario_tags) repo tmo = Some (Inr ''v1.2.0'')"
  by (simp add: fetch_latest_semver_tag_def fetch_tags_single_page select_latest_scenario)

lemma class_eval2:
  "is_ident_start CHR ''C''" "\<not> is_ident_char CHR ''=''" "\<not> is_space CHR ''C''"
  "\<not> is_space CHR ''h''" "\<not> is_ident_start CHR '' ''"
  by (simp_all add: is_space_def is_ident_start_def is_ident_char_def is_digit_def)

lemma parse_two_lines:
  "parse_image_constants two_lines ''C'' = Some (0, ''horuszup/horusec-c:v1.1.5'')"
  "parse_image_constants two_lines ''Go'' = Some (1, ''horuszup/horusec-go:v1.0.0'')"
  by (simp_all add: parse_image_constants_def two_lines_def go_line_def
        CONST_LINE_RE_match_def class_eval class_eval2)

lemma on_exception_not_success: "on_exception e \<noteq> Returned 0"
  by (simp add: on_exception_def)

lemma main_failure:
  assumes "fs (images_file a) = Some txt"
    and "compute_updates net TARGET_CONST_TO_REPOSITORY
           (parse_image_constants (splitlines txt)) (timeout a) = Some (Inl e)"
  shows "main net ts a fs = Some (on_exception e, fs)"
  using assms by (simp add: main_def)

lemma compute_updates_None_iff:
  "compute_updates net targets constants tmo = None
     \<longleftrightarrow> compute_loop net targets constants tmo [] = None"
  by (auto simp: compute_updates_def split: option.splits sum.splits)

lemma linebreak_eval:
  "is_linebreak (CHR 0x0A)" "\<not> is_linebreak CHR ''C''" "\<not> is_linebreak CHR '' ''"
  "\<not> is_linebreak CHR ''=''" "\<not> is_linebreak (CHR 0x22)" "\<not> is_linebreak CHR ''h''"
  by (simp_all add: is_linebreak_def)

lemma splitlines_failing_file:
  "splitlines failing_file =
     [go_line [] ''C'' ''horuszup/horusec-c:v1.0.0'',
      go_line [] ''Csharp'' ''horusec-csharp-v1.0.0'']"
  by (simp add: failing_file_def go_line_def splitlines.simps(2) is_linebreak_def)











lemma apply_loop_frame:
  assumes "\<forall>u \<in> set ups. lookup_ok (length ls) constants u"
    and "distinct (map (target_of (length ls) constants) ups)"
  shows "\<exists>res. apply_loop ups constants ls = Inr res \<and> length res = length ls
    \<and> (\<forall>k < length ls. (\<forall>u \<in> set ups. target_of (length ls) constants u \<noteq> Some k)
          \<longrightarrow> res ! k = ls ! k)
    \<and> (\<forall>u \<in> set ups. \<forall>i v k. constants (const_name u) = Some (i, v)
          \<and> list_index (length ls) i = Some k
          \<longrightarrow> res ! k = replace_first v (before_last_colon v @ '':'' @ to_tag u) (ls ! k))"
  using assms
proof (induction ups arbitrary: ls)
  case Nil
  show ?case by simp
next
  case (Cons u ups)
  let ?n = "length ls"
  from Cons.prems(1) obtain i v k where c: "constants (const_name u) = Some (i, v)"
    and colon: "CHR '':'' \<in> set v" and k: "list_index ?n i = Some k"
    by (auto simp: lookup_ok_def split: option.splits)
  have kn: "k < ?n" using k by (rule list_index_bound)
  have tu: "target_of ?n constants u = Some k" by (simp add: target_of_def c k)
  let ?w = "replace_first v (before_last_colon v @ '':'' @ to_tag u) (ls ! k)"
  let ?ls' = "ls[k := ?w]"
  have step: "apply_loop (u # ups) constants ls = apply_loop ups constants ?ls'"
    using c colon k by (simp add: replace_image_tag_def)
  have len: "length ?ls' = ?n" by simp
  from Cons.prems have p1: "\<forall>u' \<in> set ups. lookup_ok (length ?ls') constants u'"
    and p2: "distinct (map (target_of (length ?ls') constants) ups)"
    by (auto simp: len)
  from Cons.prems(2) tu have "Some k \<notin> target_of ?n constants ` set ups" by simp
  then have fresh: "\<forall>u' \<in> set ups. target_of ?n constants u' \<noteq> Some k"
    by (metis imageI)
  from Cons.IH [OF p1 p2] obtain res where r: "apply_loop ups constants ?ls' = Inr res"
    "length res = ?n"
    and same: "\<forall>j < ?n. (\<forall>u' \<in> set ups. target_of ?n constants u' \<noteq> Some j)
          \<longrightarrow> res ! j = ?ls' ! j"
    and repl: "\<forall>u' \<in> set ups. \<forall>i' v' j. constants (const_name u') = Some (i', v')
          \<and> list_index ?n i' = Some j
          \<longrightarrow> res ! j = replace_first v' (before_last_colon v' @ '':'' @ to_tag u') (?ls' ! j)"
    by (auto simp: len)
  have resk: "res ! k = ?w" using same kn fresh by simp
  have a: "\<forall>j < ?n. (\<forall>u' \<in> set (u # ups). target_of ?n constants u' \<noteq> Some j)
          \<longrightarrow> res ! j = ls ! j"
  proof (intro allI impI)
    fix j assume j: "j < ?n" and un: "\<forall>u' \<in> set (u # ups). target_of ?n constants u' \<noteq> Some j"
    then have "j \<noteq> k" using tu by auto
    with same j un show "res ! j = ls ! j" by simp
  qed
  have b: "\<forall>u' \<in> set (u # ups). \<forall>i' v' j. constants (const_name u') = Some (i', v')
          \<and> list_index ?n i' = Some j
          \<longrightarrow> res ! j = replace_first v' (before_last_colon v' @ '':'' @ to_tag u') (ls ! j)"
  proof (intro ballI allI impI)
    fix u' i' v' j
    assume u': "u' \<in> set (u # ups)"
      and h: "constants (const_name u') = Some (i', v') \<and> list_index ?n i' = Some j"
    show "res ! j = replace_first v' (before_last_colon v' @ '':'' @ to_tag u') (ls ! j)"
    proof (cases "u' \<in> set ups")
      case True
      have "target_of ?n constants u' = Some j" using h by (simp add: target_of_def)
      with fresh True have "j \<noteq> k" by auto
      then have "?ls' ! j = ls ! j" by simp
      moreover from repl True h have
        "res ! j = replace_first v' (before_last_colon v' @ '':'' @ to_tag u') (?ls' ! j)"
        by blast
      ultimately show ?thesis by simp
    next
      case False
      with u' have "u' = u" by simp
      with h c k have "v' = v" "j = k" by simp_all
      with resk \<open>u' = u\<close> show ?thesis by simp
    qed
  qed
  from step r a b show ?case by simp
qed


lemma spec_stable_semver_last: "spec_stable_semver tag \<Longrightarrow> is_digit (last tag)"
proof -
  assume "spec_stable_semver tag"
  then obtain a b c where t: "tag = ''v'' @ a @ ''.'' @ b @ ''.'' @ c" and c: "c \<noteq> []"
    "list_all is_digit c" by (auto simp: spec_stable_semver_def)
  from t c(1) have "last tag = last c" by simp
  moreover have "last c \<in> set c" using c(1) by (rule last_in_set)
  ultimately show ?thesis using c(2) by (simp add: list_all_iff)
qed

lemma parse_entry_line:
  assumes "parse_image_constants lines c = Some (i, v)"
  obtains j indent where "j < length lines" "i = int j"
    "CONST_LINE_RE_match (lines ! j) = Some (indent, c, v)"
  using assms parse_image_constants_iff [of lines c i v] by blast

lemma parse_target_of:
  assumes "parse_image_constants lines (const_name u) = Some (i, v)"
  shows "target_of (length lines) (parse_image_constants lines) u = Some (nat i)"
    and "nat i < length lines"
proof -
  from assms obtain j indent where "j < length lines" "i = int j"
    by (rule parse_entry_line)
  then show "target_of (length lines) (parse_image_constants lines) u = Some (nat i)"
    and "nat i < length lines"
    using assms by (simp_all add: target_of_def list_index_def)
qed

lemma parse_same_line_same_const:
  assumes "parse_image_constants lines c = Some (i, v)"
    and "parse_image_constants lines c' = Some (i, v')"
  shows "c = c'"
proof -
  from assms(1) obtain j indent where j: "i = int j"
    "CONST_LINE_RE_match (lines ! j) = Some (indent, c, v)" by (rule parse_entry_line)
  from assms(2) obtain j' indent' where j': "i = int j'"
    "CONST_LINE_RE_match (lines ! j') = Some (indent', c', v')" by (rule parse_entry_line)
  from j j' show ?thesis by simp
qed

lemma parse_distinct_targets:
  assumes d: "distinct (map const_name ups)"
    and ok: "\<forall>u \<in> set ups. \<exists>i v. parse_image_constants lines (const_name u) = Some (i, v)"
  shows "distinct (map (target_of (length lines) (parse_image_constants lines)) ups)"
proof -
  let ?cs = "parse_image_constants lines"
  let ?t = "target_of (length lines) ?cs"
  from d have du: "distinct ups" and inj: "inj_on const_name (set ups)"
    by (simp_all add: distinct_map)
  have "inj_on ?t (set ups)"
  proof (rule inj_onI)
    fix u1 u2 assume u: "u1 \<in> set ups" "u2 \<in> set ups" and e: "?t u1 = ?t u2"
    from ok u obtain i1 v1 i2 v2 where c: "?cs (const_name u1) = Some (i1, v1)"
      "?cs (const_name u2) = Some (i2, v2)" by blast
    from c(1) obtain j1 where j1: "i1 = int j1" by (rule parse_entry_line)
    from c(2) obtain j2 where j2: "i2 = int j2" by (rule parse_entry_line)
    from e parse_target_of(1) [OF c(1)] parse_target_of(1) [OF c(2)] j1 j2
    have "i1 = i2" by simp
    with c have "const_name u1 = const_name u2" by (auto intro: parse_same_line_same_const)
    with inj u show "u1 = u2" by (auto dest: inj_onD)
  qed
  with du show ?thesis by (simp add: distinct_map)
qed

section \<open>The properties\<close>

text \<open>
  Claim C6. The claim: a tag that does not match \<open>v<digits>.<digits>.<digits>\<close> exactly
  gives no version. The code: the tag \<open>v1.2.3\<close> followed by a newline, whose last
  character is no digit, parses to the version \<open>(1, 2, 3)\<close>, because \<open>$\<close> also holds
  before a final newline.
\<close>

theorem parse_semver_accepts_trailing_newline: "parse_semver (''v1.2.3'' @ [CHR 0x0A]) = Some (1, 2, 3)
   \<and> \<not> is_digit (last (''v1.2.3'' @ [CHR 0x0A]))"
  by (simp add: parse_semver_def SEMVER_RE_match_def is_digit_def int_of_digits_def digit_val_def)

text \<open>
  Claim C7. The entry of an identifier in the mapping of \<open>parse_image_constants\<close> is the
  position and the value of the last line that matches the pattern with this identifier;
  an identifier has no entry if and only if no line matches with it, so a line that does
  not match adds nothing.
\<close>

theorem parse_image_constants_last_wins:
  "(parse_image_constants lines c = Some (i, v) \<longleftrightarrow>
     (\<exists>j < length lines. i = int j
        \<and> (\<exists>indent. CONST_LINE_RE_match (lines ! j) = Some (indent, c, v))
        \<and> (\<forall>j'. j < j' \<and> j' < length lines \<longrightarrow>
             (\<forall>indent' v'. CONST_LINE_RE_match (lines ! j') \<noteq> Some (indent', c, v')))))
   \<and> (parse_image_constants lines c = None \<longleftrightarrow>
        (\<forall>j < length lines.
           \<forall>indent v'. CONST_LINE_RE_match (lines ! j) \<noteq> Some (indent, c, v')))"
  using parse_image_constants_iff [of lines c i v]
    parse_loop_None_iff [of 0 lines Map.empty c]
  by (simp add: parse_image_constants_def)

theorem parse_image_constants_last_wins_witness:
  "parse_image_constants duplicate_lines ''Go'' = Some (2, ''horuszup/horusec-go:v1.1.0'')
   \<and> CONST_LINE_RE_match (duplicate_lines ! 0)
        = Some ([], ''Go'', ''horuszup/horusec-go:v1.0.0'')
   \<and> CONST_LINE_RE_match (duplicate_lines ! 1) = None"
proof -
  have m0: "CONST_LINE_RE_match (duplicate_lines ! 0)
        = Some ([], ''Go'', ''horuszup/horusec-go:v1.0.0'')"
    by (simp add: duplicate_lines_def go_line_def CONST_LINE_RE_match_def class_eval)
  have m1: "CONST_LINE_RE_match (duplicate_lines ! 1) = None"
    by (simp add: duplicate_lines_def go_line_def CONST_LINE_RE_match_def class_eval)
  have m2: "CONST_LINE_RE_match (duplicate_lines ! 2)
        = Some (''  '', ''Go'', ''horuszup/horusec-go:v1.1.0'')"
    by (simp add: duplicate_lines_def go_line_def CONST_LINE_RE_match_def class_eval)
  have n: "length duplicate_lines = 3" by (simp add: duplicate_lines_def)
  have "\<exists>j < length duplicate_lines. 2 = int j
        \<and> (\<exists>indent. CONST_LINE_RE_match (duplicate_lines ! j)
              = Some (indent, ''Go'', ''horuszup/horusec-go:v1.1.0''))
        \<and> (\<forall>j'. j < j' \<and> j' < length duplicate_lines \<longrightarrow>
             (\<forall>indent' v'. CONST_LINE_RE_match (duplicate_lines ! j') \<noteq> Some (indent', ''Go'', v')))"
    using m2 n by (intro exI [of _ 2]) auto
  then have "parse_image_constants duplicate_lines ''Go'' = Some (2, ''horuszup/horusec-go:v1.1.0'')"
    using parse_image_constants_last_wins [of duplicate_lines "''Go''" 2 "''horuszup/horusec-go:v1.1.0''"]
    by blast
  with m0 m1 show ?thesis by simp
qed

text \<open>
  Claim C4. Whatever the order of the table of tracked identifiers and whatever the
  registry answers, a list of update records that \<open>compute_updates\<close> returns is sorted by
  identifier; for every item of the table the current tag and the latest tag exist, a
  record for the item is in the list if and only if the two differ, and such a record holds
  exactly these two tags; and every record of the list is for an item of the table.
\<close>

theorem compute_updates_sorted:
  assumes "compute_updates net targets constants tmo = Some (Inr ups)"
  shows "sorted (map const_name ups)
    \<and> (\<forall>cr \<in> set targets. \<exists>i v cur lat.
          constants (fst cr) = Some (i, v) \<and> extract_image_tag v = Inr cur
          \<and> fetch_latest_semver_tag net (snd cr) tmo = Some (Inr lat)
          \<and> ((\<exists>u \<in> set ups. const_name u = fst cr \<and> repository u = snd cr) \<longleftrightarrow> cur \<noteq> lat)
          \<and> (\<forall>u \<in> set ups. const_name u = fst cr \<and> repository u = snd cr
                \<longrightarrow> from_tag u = cur \<and> to_tag u = lat))
    \<and> (\<forall>u \<in> set ups. (const_name u, repository u) \<in> set targets)"
proof -
  let ?P = "planned net constants tmo"
  from assms have ok: "\<forall>cr \<in> set targets. step_ok net constants tmo cr"
    and ups: "ups = sort_key const_name (concat (map ?P targets))"
    by (simp_all add: compute_updates_Inr_iff)
  have set_ups: "set ups = (\<Union>cr \<in> set targets. set (?P cr))"
    by (simp add: ups)
  have 1: "sorted (map const_name ups)" by (simp add: ups)
  have 3: "\<forall>u \<in> set ups. (const_name u, repository u) \<in> set targets"
    unfolding set_ups by (auto dest!: planned_member)
  have 2: "\<forall>cr \<in> set targets. \<exists>i v cur lat.
          constants (fst cr) = Some (i, v) \<and> extract_image_tag v = Inr cur
          \<and> fetch_latest_semver_tag net (snd cr) tmo = Some (Inr lat)
          \<and> ((\<exists>u \<in> set ups. const_name u = fst cr \<and> repository u = snd cr) \<longleftrightarrow> cur \<noteq> lat)
          \<and> (\<forall>u \<in> set ups. const_name u = fst cr \<and> repository u = snd cr
                \<longrightarrow> from_tag u = cur \<and> to_tag u = lat)"
  proof
    fix cr assume cr: "cr \<in> set targets"
    with ok have "step_ok net constants tmo cr" by simp
    then obtain i v lat where s: "constants (fst cr) = Some (i, v)"
      "extract_image_tag v = Inr (after_last_colon v)"
      "fetch_latest_semver_tag net (snd cr) tmo = Some (Inr lat)"
      "?P cr = (if after_last_colon v \<noteq> lat
        then [\<lparr>const_name = fst cr, repository = snd cr,
               from_tag = after_last_colon v, to_tag = lat\<rparr>] else [])"
      by (rule planned_cases)
    let ?cur = "after_last_colon v"
    have a: "(\<exists>u \<in> set ups. const_name u = fst cr \<and> repository u = snd cr) \<longleftrightarrow> ?cur \<noteq> lat"
    proof
      assume "\<exists>u \<in> set ups. const_name u = fst cr \<and> repository u = snd cr"
      then obtain u cr' where u: "cr' \<in> set targets" "u \<in> set (?P cr')"
        "const_name u = fst cr" "repository u = snd cr"
        unfolding set_ups by auto
      from planned_member [OF u(2)] u(3,4) s(1,3) show "?cur \<noteq> lat" by auto
    next
      assume "?cur \<noteq> lat"
      with s(4) have "\<lparr>const_name = fst cr, repository = snd cr,
               from_tag = ?cur, to_tag = lat\<rparr> \<in> set (?P cr)" by simp
      with cr show "\<exists>u \<in> set ups. const_name u = fst cr \<and> repository u = snd cr"
        unfolding set_ups by force
    qed
    have b: "\<forall>u \<in> set ups. const_name u = fst cr \<and> repository u = snd cr
                \<longrightarrow> from_tag u = ?cur \<and> to_tag u = lat"
    proof (intro ballI impI)
      fix u assume "u \<in> set ups" and e: "const_name u = fst cr \<and> repository u = snd cr"
      then obtain cr' where u: "cr' \<in> set targets" "u \<in> set (?P cr')"
        unfolding set_ups by auto
      from planned_member [OF u(2)] e s(1,3) show "from_tag u = ?cur \<and> to_tag u = lat"
        by auto
    qed
    from s(1,2,3) a b show "\<exists>i v cur lat.
          constants (fst cr) = Some (i, v) \<and> extract_image_tag v = Inr cur
          \<and> fetch_latest_semver_tag net (snd cr) tmo = Some (Inr lat)
          \<and> ((\<exists>u \<in> set ups. const_name u = fst cr \<and> repository u = snd cr) \<longleftrightarrow> cur \<noteq> lat)
          \<and> (\<forall>u \<in> set ups. const_name u = fst cr \<and> repository u = snd cr
                \<longrightarrow> from_tag u = cur \<and> to_tag u = lat)"
      by blast
  qed
  from 1 2 3 show ?thesis by blast
qed

theorem compute_updates_sorted_witness:
  "compute_updates (single_page scenario_tags) two_targets (parse_image_constants two_lines) 15
     = Some (Inr [\<lparr>const_name = ''C'', repository = ''horusec-c'',
                    from_tag = ''v1.1.5'', to_tag = ''v1.2.0''\<rparr>,
                  \<lparr>const_name = ''Go'', repository = ''horusec-go'',
                    from_tag = ''v1.0.0'', to_tag = ''v1.2.0''\<rparr>])
   \<and> sorted [''C'', ''Go'']"
proof -
  have h: "compute_updates (single_page scenario_tags) two_targets
             (parse_image_constants two_lines) 15
     = Some (Inr [\<lparr>const_name = ''C'', repository = ''horusec-c'',
                    from_tag = ''v1.1.5'', to_tag = ''v1.2.0''\<rparr>,
                  \<lparr>const_name = ''Go'', repository = ''horusec-go'',
                    from_tag = ''v1.0.0'', to_tag = ''v1.2.0''\<rparr>])"
    by (simp add: compute_updates_def two_targets_def parse_two_lines extract_image_tag_def
        after_last_colon_def fetch_latest_scenario parse_semver_def SEMVER_RE_match_def
        Let_def digit_eval)
  from compute_updates_sorted [OF h] have "sorted (map const_name
       [\<lparr>const_name = ''C'', repository = ''horusec-c'',
                    from_tag = ''v1.1.5'', to_tag = ''v1.2.0''\<rparr>,
                  \<lparr>const_name = ''Go'', repository = ''horusec-go'',
                    from_tag = ''v1.0.0'', to_tag = ''v1.2.0''\<rparr>])" by blast
  with h show ?thesis by simp
qed

text \<open>
  Claim C5. If the step of any tracked identifier fails (its constant is missing, its value
  has no colon, retrieving or selecting its latest tag raises, or the latest tag does not
  parse), then every run of \<open>main\<close> that ends leaves all files as they were and does not
  end with status 0: it returns 1 for the exceptions it catches and passes the others on.
  The run ends whenever every page walk ends.
\<close>

theorem main_error_leaves_files:
  assumes img: "fs (images_file a) = Some txt"
    and cr: "cr \<in> set TARGET_CONST_TO_REPOSITORY"
    and fails: "step_fails net (parse_image_constants (splitlines txt)) (timeout a) cr"
  shows "(\<forall>out fs'. main net ts a fs = Some (out, fs')
            \<longrightarrow> fs' = fs \<and> out \<noteq> Returned 0 \<and> (\<exists>e. out = on_exception e))
    \<and> ((\<forall>cr' \<in> set TARGET_CONST_TO_REPOSITORY. fetch_tags net (snd cr') (timeout a) \<noteq> None)
          \<longrightarrow> main net ts a fs \<noteq> None)"
proof -
  let ?cs = "parse_image_constants (splitlines txt)"
  let ?cu = "compute_updates net TARGET_CONST_TO_REPOSITORY ?cs (timeout a)"
  have no: "\<forall>ups. ?cu \<noteq> Some (Inr ups)"
    using cr step_fails_not_ok [OF fails] by (auto simp: compute_updates_Inr_iff)
  have 1: "\<forall>out fs'. main net ts a fs = Some (out, fs')
            \<longrightarrow> fs' = fs \<and> out \<noteq> Returned 0 \<and> (\<exists>e. out = on_exception e)"
  proof (intro allI impI)
    fix out fs' assume m: "main net ts a fs = Some (out, fs')"
    show "fs' = fs \<and> out \<noteq> Returned 0 \<and> (\<exists>e. out = on_exception e)"
    proof (cases ?cu)
      case None
      with img m show ?thesis by (simp add: main_def)
    next
      case (Some r)
      with no obtain e where "r = Inl e" by (cases r) auto
      with Some img have "main net ts a fs = Some (on_exception e, fs)"
        by (simp add: main_failure)
      with m show ?thesis by (auto simp: on_exception_not_success)
    qed
  qed
  have 2: "(\<forall>cr' \<in> set TARGET_CONST_TO_REPOSITORY. fetch_tags net (snd cr') (timeout a) \<noteq> None)
          \<longrightarrow> main net ts a fs \<noteq> None"
  proof
    assume "\<forall>cr' \<in> set TARGET_CONST_TO_REPOSITORY. fetch_tags net (snd cr') (timeout a) \<noteq> None"
    then have "?cu \<noteq> None"
      by (simp add: compute_updates_None_iff compute_loop_terminates)
    then obtain r where r: "?cu = Some r" by auto
    with no obtain e where "r = Inl e" by (cases r) auto
    with r img show "main net ts a fs \<noteq> None" by (simp add: main_failure)
  qed
  from 1 2 show ?thesis by blast
qed

theorem main_error_leaves_files_witness:
  "\<exists>out. main (single_page scenario_tags) ''2026-01-01 00:00:00Z'' example_args
            [''images.go'' \<mapsto> failing_file]
          = Some (out, [''images.go'' \<mapsto> failing_file]) \<and> out \<noteq> Returned 0"
proof -
  let ?fs = "[''images.go'' \<mapsto> failing_file]"
  let ?net = "single_page scenario_tags"
  have f: "?fs (images_file example_args) = Some failing_file"
    by (simp add: example_args_def)
  have c: "(''Csharp'', ''horusec-csharp'') \<in> set TARGET_CONST_TO_REPOSITORY"
    by (simp add: TARGET_CONST_TO_REPOSITORY_def)
  have p: "parse_image_constants (splitlines failing_file) ''Csharp''
             = Some (1, ''horusec-csharp-v1.0.0'')"
    by (simp add: splitlines_failing_file parse_image_constants_def go_line_def
        CONST_LINE_RE_match_def is_space_def is_ident_start_def is_ident_char_def
        is_digit_def)
  have s: "step_fails ?net (parse_image_constants (splitlines failing_file))
             (timeout example_args) (''Csharp'', ''horusec-csharp'')"
    by (simp add: step_fails_def p)
  have t: "\<forall>cr' \<in> set TARGET_CONST_TO_REPOSITORY.
             fetch_tags ?net (snd cr') (timeout example_args) \<noteq> None"
    by (simp add: fetch_tags_single_page)
  have "(\<forall>out fs'. main ?net ''2026-01-01 00:00:00Z'' example_args ?fs = Some (out, fs')
            \<longrightarrow> fs' = ?fs \<and> out \<noteq> Returned 0 \<and> (\<exists>e. out = on_exception e))
    \<and> ((\<forall>cr' \<in> set TARGET_CONST_TO_REPOSITORY.
            fetch_tags ?net (snd cr') (timeout example_args) \<noteq> None)
          \<longrightarrow> main ?net ''2026-01-01 00:00:00Z'' example_args ?fs \<noteq> None)"
    using main_error_leaves_files [of "?fs" example_args failing_file
        "(''Csharp'', ''horusec-csharp'')" "?net" "''2026-01-01 00:00:00Z''"] f c s
    by blast
  with t show ?thesis by fastforce
qed









text \<open>
  Claim C1. The claim: the selector fails if and only if no tag is a stable semantic
  version, and otherwise returns the greatest such tag. The code: the tag \<open>v1.2.3\<close>
  followed by a newline is no stable semantic version, yet from the tags \<open>v1.0.0\<close> and
  \<open>v1.2.3\<close> with the newline the selector returns \<open>v1.2.3\<close> instead of \<open>v1.0.0\<close>, and
  from the tag with the newline alone it returns \<open>v1.2.3\<close> instead of failing: it takes
  the tags that \<open>parse_semver\<close> accepts, and \<open>parse_semver\<close> accepts this one.
\<close>

theorem fetch_latest_semver_tag_takes_newline_tag:
  "spec_stable_semver ''v1.0.0''
   \<and> \<not> spec_stable_semver (''v1.2.3'' @ [CHR 0x0A])
   \<and> fetch_latest_semver_tag (single_page newline_tags) ''horusec-go'' 15
       = Some (Inr ''v1.2.3'')
   \<and> fetch_latest_semver_tag (single_page [''v1.2.3'' @ [CHR 0x0A]]) ''horusec-go'' 15
       = Some (Inr ''v1.2.3'')"
proof -
  have "''v1.0.0'' = ''v'' @ ''1'' @ ''.'' @ ''0'' @ ''.'' @ ''0''" by simp
  then have 1: "spec_stable_semver ''v1.0.0''"
    unfolding spec_stable_semver_def
    by (intro exI [of _ "''1''"] exI [of _ "''0''"]) (simp add: is_digit_def)
  have 2: "\<not> spec_stable_semver (''v1.2.3'' @ [CHR 0x0A])"
    using spec_stable_semver_last [of "''v1.2.3'' @ [CHR 0x0A]"] by (auto simp: is_digit_def)
  have p: "parse_semver ''v1.0.0'' = Some (1, 0, 0)"
    "parse_semver (''v1.2.3'' @ [CHR 0x0A]) = Some (1, 2, 3)"
    by (simp_all add: parse_semver_def SEMVER_RE_match_def Let_def is_digit_def
        int_of_digits_def digit_val_def)
  have f: "format_version (1, 2, 3) = ''v1.2.3''"
    by (simp add: str_of_nat.simps digit_char_def char_of_def bit_Suc_0_iff)
  have 3: "select_latest ''horusec-go'' newline_tags = Inr ''v1.2.3''"
    using p f by (simp add: select_latest_def newline_tags_def List.map_filter_simps
        del: format_version.simps)
  have 4: "select_latest ''horusec-go'' [''v1.2.3'' @ [CHR 0x0A]] = Inr ''v1.2.3''"
    using p(2) f by (simp add: select_latest_def List.map_filter_simps
        del: format_version.simps)
  from 1 2 3 4 show ?thesis
    by (simp add: fetch_latest_semver_tag_def fetch_tags_single_page)
qed

text \<open>
  Claim C10, amended. Every entry of the mapping of \<open>parse_image_constants\<close> holds a
  position inside the buffer and a value that is not empty, has no double quote and occurs
  in the line at that position. \<open>apply_updates\<close> on the buffer and its mapping never raises
  \<open>IndexError\<close>, whatever the update records. For update records with pairwise distinct
  identifiers that all have an entry with a colon in its value, \<open>apply_updates\<close> returns a
  buffer in which the line of an entry with a record has the new value in the place of the
  first occurrence of the recorded value, and the line of an entry without a record is
  unchanged.
\<close>

theorem parse_image_constants_entries:
  assumes "parse_image_constants lines c = Some (i, v)"
  shows "0 \<le> i \<and> i < int (length lines) \<and> v \<noteq> [] \<and> CHR 0x22 \<notin> set v
    \<and> (\<exists>pre post. lines ! nat i = pre @ v @ post
          \<and> (\<forall>updates.
                distinct (map const_name updates)
                \<and> (\<forall>u \<in> set updates. \<exists>i' v'.
                      parse_image_constants lines (const_name u) = Some (i', v')
                      \<and> CHR '':'' \<in> set v')
                \<longrightarrow> (\<exists>res. apply_updates lines (parse_image_constants lines) updates = Inr res
                      \<and> length res = length lines
                      \<and> (\<forall>u \<in> set updates. const_name u = c \<longrightarrow>
                            res ! nat i = pre @ (before_last_colon v @ '':'' @ to_tag u) @ post)
                      \<and> ((\<forall>u \<in> set updates. const_name u \<noteq> c) \<longrightarrow>
                            res ! nat i = lines ! nat i))))
    \<and> (\<forall>updates. apply_updates lines (parse_image_constants lines) updates \<noteq> Inl IndexError)"
proof -
  let ?cs = "parse_image_constants lines"
  let ?n = "length lines"
  from assms obtain j indent where j: "j < ?n" "i = int j"
    and m: "CONST_LINE_RE_match (lines ! j) = Some (indent, c, v)"
    by (rule parse_entry_line)
  from CONST_LINE_RE_match_occurs [OF m] obtain pre0 post0 where
    v: "v \<noteq> []" "CHR 0x22 \<notin> set v" and o: "lines ! j = pre0 @ v @ post0" by blast
  from replace_first_occurs [OF o] obtain pre post where
    occ: "lines ! j = pre @ v @ post"
    and rf: "\<forall>new. replace_first v new (lines ! j) = pre @ new @ post" by blast
  have frame: "\<exists>res. apply_updates lines ?cs updates = Inr res
                      \<and> length res = ?n
                      \<and> (\<forall>u \<in> set updates. const_name u = c \<longrightarrow>
                            res ! nat i = pre @ (before_last_colon v @ '':'' @ to_tag u) @ post)
                      \<and> ((\<forall>u \<in> set updates. const_name u \<noteq> c) \<longrightarrow>
                            res ! nat i = lines ! nat i)"
    if d: "distinct (map const_name updates)"
      and ok: "\<forall>u \<in> set updates. \<exists>i' v'. ?cs (const_name u) = Some (i', v')
                      \<and> CHR '':'' \<in> set v'"
    for updates
  proof -
    have lk: "\<forall>u \<in> set updates. lookup_ok ?n ?cs u"
    proof
      fix u assume "u \<in> set updates"
      with ok obtain i' v' where c': "?cs (const_name u) = Some (i', v')"
        and col: "CHR '':'' \<in> set v'" by blast
      from parse_target_of(1) [OF c'] c' have "list_index ?n i' \<noteq> None"
        by (simp add: target_of_def)
      with c' col show "lookup_ok ?n ?cs u" by (simp add: lookup_ok_def)
    qed
    have dt: "distinct (map (target_of ?n ?cs) updates)"
      using d ok by (intro parse_distinct_targets) blast+
    from apply_loop_frame [OF lk dt] obtain res where
      r: "apply_loop updates ?cs lines = Inr res" "length res = ?n"
      and same: "\<forall>k < ?n. (\<forall>u \<in> set updates. target_of ?n ?cs u \<noteq> Some k)
          \<longrightarrow> res ! k = lines ! k"
      and repl: "\<forall>u \<in> set updates. \<forall>i' v' k. ?cs (const_name u) = Some (i', v')
          \<and> list_index ?n i' = Some k
          \<longrightarrow> res ! k = replace_first v' (before_last_colon v' @ '':'' @ to_tag u) (lines ! k)"
      by blast
    have li: "list_index ?n i = Some j" using j by (simp add: list_index_def)
    have a: "\<forall>u \<in> set updates. const_name u = c \<longrightarrow>
               res ! nat i = pre @ (before_last_colon v @ '':'' @ to_tag u) @ post"
    proof (intro ballI impI)
      fix u assume u: "u \<in> set updates" "const_name u = c"
      with repl assms li have
        "res ! j = replace_first v (before_last_colon v @ '':'' @ to_tag u) (lines ! j)"
        by blast
      with rf j show "res ! nat i = pre @ (before_last_colon v @ '':'' @ to_tag u) @ post"
        by simp
    qed
    have b: "(\<forall>u \<in> set updates. const_name u \<noteq> c) \<longrightarrow> res ! nat i = lines ! nat i"
    proof
      assume nc: "\<forall>u \<in> set updates. const_name u \<noteq> c"
      have "\<forall>u \<in> set updates. target_of ?n ?cs u \<noteq> Some j"
      proof
        fix u assume u: "u \<in> set updates"
        with ok obtain i' v' where c': "?cs (const_name u) = Some (i', v')" by blast
        show "target_of ?n ?cs u \<noteq> Some j"
        proof
          assume "target_of ?n ?cs u = Some j"
          with parse_target_of(1) [OF c'] have "nat i' = j" by simp
          moreover from c' obtain j' where "i' = int j'" by (rule parse_entry_line)
          ultimately have "i' = i" using j by simp
          with c' assms have "const_name u = c" by (auto intro: parse_same_line_same_const)
          with nc u show False by simp
        qed
      qed
      with same j show "res ! nat i = lines ! nat i" by simp
    qed
    from r a b show ?thesis by (auto simp: apply_updates_def)
  qed
  have noidx: "\<forall>updates. apply_updates lines ?cs updates \<noteq> Inl IndexError"
  proof
    fix updates
    have "\<forall>c i v. ?cs c = Some (i, v) \<longrightarrow> 0 \<le> i \<and> i < int ?n"
      using parse_image_constants_iff [of lines] by auto
    then show "apply_updates lines ?cs updates \<noteq> Inl IndexError"
      unfolding apply_updates_def by (rule apply_loop_no_IndexError)
  qed
  have "\<exists>pre post. lines ! nat i = pre @ v @ post
          \<and> (\<forall>updates.
                distinct (map const_name updates)
                \<and> (\<forall>u \<in> set updates. \<exists>i' v'. ?cs (const_name u) = Some (i', v')
                      \<and> CHR '':'' \<in> set v')
                \<longrightarrow> (\<exists>res. apply_updates lines ?cs updates = Inr res
                      \<and> length res = ?n
                      \<and> (\<forall>u \<in> set updates. const_name u = c \<longrightarrow>
                            res ! nat i = pre @ (before_last_colon v @ '':'' @ to_tag u) @ post)
                      \<and> ((\<forall>u \<in> set updates. const_name u \<noteq> c) \<longrightarrow>
                            res ! nat i = lines ! nat i)))"
    using occ frame j by (intro exI [of _ pre] exI [of _ post]) simp
  with j v noidx show ?thesis by simp
qed

theorem parse_image_constants_entries_witness:
  "parse_image_constants two_lines ''Go'' = Some (1, ''horuszup/horusec-go:v1.0.0'')
   \<and> (\<exists>res. apply_updates two_lines (parse_image_constants two_lines)
               [\<lparr>const_name = ''Go'', repository = ''horusec-go'',
                  from_tag = ''v1.0.0'', to_tag = ''v1.3.0''\<rparr>] = Inr res
             \<and> length res = 2)"
proof -
  let ?u = "\<lparr>const_name = ''Go'', repository = ''horusec-go'',
                  from_tag = ''v1.0.0'', to_tag = ''v1.3.0''\<rparr>"
  have h: "parse_image_constants two_lines ''Go'' = Some (1, ''horuszup/horusec-go:v1.0.0'')"
    by (rule parse_two_lines)
  have d: "distinct (map const_name [?u])" by simp
  have ok: "\<forall>u \<in> set [?u]. \<exists>i' v'.
              parse_image_constants two_lines (const_name u) = Some (i', v')
              \<and> CHR '':'' \<in> set v'"
    by (simp add: parse_two_lines)
  have n: "length two_lines = 2" by (simp add: two_lines_def)
  from parse_image_constants_entries [OF h] d ok
  have "\<exists>res. apply_updates two_lines (parse_image_constants two_lines) [?u] = Inr res
             \<and> length res = length two_lines"
    by blast
  with h n show ?thesis by simp
qed

text \<open>
  Claim C10 as stated, for every list of update records, fails: of two records for one
  identifier, the second looks for the recorded value on a line where the first has already
  replaced it, and finds nothing.
\<close>

theorem apply_updates_second_record_finds_nothing:
  "parse_image_constants one_line ''Go'' = Some (0, ''x:1'')
   \<and> apply_updates one_line (parse_image_constants one_line)
        [go_update, go_update\<lparr>to_tag := ''3''\<rparr>]
      = Inr [''Go = '' @ [CHR 0x22] @ ''x:2'' @ [CHR 0x22]]
   \<and> replace_first ''x:1'' ''x:3'' (''Go = '' @ [CHR 0x22] @ ''x:2'' @ [CHR 0x22])
      = ''Go = '' @ [CHR 0x22] @ ''x:2'' @ [CHR 0x22]"
proof -
  have p: "parse_image_constants one_line ''Go'' = Some (0, ''x:1'')"
    by (simp add: parse_image_constants_def one_line_def CONST_LINE_RE_match_def
        is_space_def is_ident_start_def is_ident_char_def is_digit_def)
  have a: "apply_loop [go_update, go_update\<lparr>to_tag := ''3''\<rparr>] cs one_line
             = Inr [''Go = '' @ [CHR 0x22] @ ''x:2'' @ [CHR 0x22]]"
    if "cs ''Go'' = Some (0, ''x:1'')" for cs
    using that by (simp add: go_update_def replace_image_tag_def before_last_colon_def
        list_index_def one_line_def)
  have b: "replace_first ''x:1'' ''x:3'' (''Go = '' @ [CHR 0x22] @ ''x:2'' @ [CHR 0x22])
      = ''Go = '' @ [CHR 0x22] @ ''x:2'' @ [CHR 0x22]"
    by simp
  from p a [of "parse_image_constants one_line", OF p] b show ?thesis by (simp only: apply_updates_def simp_thms)
qed

end
